theory Spec2Isabelle
  imports Complex_Main "HOL-Library.Word" "HOL-Library.Multiset" "HOL-Library.Sublist"
    "HOL-Library.AList"
begin

section \<open>Data model of \<open>main.py\<close>\<close>

text \<open>
  A Python \<open>bytes\<close> object is a list of 8-bit words. Python's unbounded integers are
  \<open>int\<close>; list indices and lengths, which never go negative here, are \<open>nat\<close>.
  Bit strings are Python \<open>str\<close> values made of the characters \<open>0\<close> and \<open>1\<close>.
  The source's variable \<open>root\<close> is written \<open>root_node\<close>, since \<open>root\<close> is the
  n-th root of the reals in HOL.
\<close>

type_synonym byte = "8 word"

text \<open>
  Class \<open>Node\<close>: \<open>sym\<close> is \<open>None\<close> for internal nodes, \<open>left\<close> and \<open>right\<close> are
  \<open>Optional[Node]\<close> and start as \<open>None\<close>.
\<close>

datatype node = Node (sym: "byte option") (freq: int) (left: "node option") (right: "node option")

text \<open>
  Every \<open>raise\<close> of the source and every exception of the interpreter and the standard
  library that the modelled code can reach is a value. The \<open>ValueError\<close>s of \<open>main.py\<close>
  are told apart by their message:
  \<^item> \<open>BadTreeRanOut\<close>: "Bad tree data: ran out"
  \<^item> \<open>BadTreeLeafMissing\<close>: "Bad tree: leaf missing byte"
  \<^item> \<open>BadTreeFlag flag at\<close>: "Bad tree flag {flag} at {i-1}"
  \<^item> \<open>ExtraBytes\<close>: "Extra bytes after tree data"
  \<^item> \<open>TooSmall\<close>: "Not a valid .huff (too small)"
  \<^item> \<open>MagicMismatch\<close>: "Not a .huff file (magic mismatch)"
  \<^item> \<open>TreeLenUnrealistic\<close>: "Header tree length unrealistic"
  \<^item> \<open>PaddingTooBig\<close>: "Padding bigger than stream"
  \<^item> \<open>CorruptBitstream\<close>: "Corrupt bitstream (walked to None)"
  \<^item> \<open>BadBinaryLiteral\<close>: the \<open>ValueError\<close> of \<open>int(s, 2)\<close>
  \<^item> \<open>ByteOutOfRange\<close>: the \<open>ValueError\<close> of \<open>bytearray.append\<close> outside 0..255

  \<open>RecursionError\<close> is the interpreter's exception for a call that exceeds the recursion
  limit.
\<close>

datatype value_error =
    BadTreeRanOut
  | BadTreeLeafMissing
  | BadTreeFlag byte nat
  | ExtraBytes
  | TooSmall
  | MagicMismatch
  | TreeLenUnrealistic
  | PaddingTooBig
  | CorruptBitstream
  | BadBinaryLiteral
  | ByteOutOfRange

datatype error =
    ValueError value_error
  | AttributeError
  | KeyError byte
  | IndexError
  | StructError
  | FileNotFoundError
  | SameFileError
  | RecursionError

section \<open>Recursion depth\<close>

text \<open>
  The interpreter allows \<open>sys.getrecursionlimit()\<close> frames on its stack, 1000 unless
  \<open>sys.setrecursionlimit\<close> is called, which the source never does; a call that needs one
  more frame raises \<open>RecursionError\<close>. The inner \<open>dfs\<close> of \<open>serialize\<close> and of
  \<open>deserialize\<close> uses one frame for each level of the tree, so both functions take the
  number of frames that are still free where \<open>dfs\<close> is first called.

  \<open>compress_file\<close> and \<open>decompress_file\<close> are taken to be called from the top level of a
  script: the frames of the script, of the entry point and of \<open>serialize\<close> or
  \<open>deserialize\<close> are in use, which leaves \<open>call_depth\<close> frames for \<open>dfs\<close>. A caller
  deeper in the stack leaves fewer.
\<close>

definition recursion_limit :: nat where
  "recursion_limit = 1000"

definition call_depth :: nat where
  "call_depth = recursion_limit - 3"

section \<open>Tree serialization (preorder): 0 = internal, 1 + byte = leaf\<close>

text \<open>
  \<open>serialize\<close>, lines 111-126. The inner \<open>dfs\<close> appends to the shared \<open>bytearray\<close>
  \<open>out\<close>, which is passed through here. It is called on \<open>node.left\<close> and
  \<open>node.right\<close> without a test, so it can receive \<open>None\<close>, where reading \<open>node.sym\<close>
  raises \<open>AttributeError\<close>. The first argument counts the free frames: a call with none
  left raises \<open>RecursionError\<close>, and the calls inside have one less.
\<close>

fun ser_dfs :: "nat \<Rightarrow> node option \<Rightarrow> byte list \<Rightarrow> error + byte list" where
  "ser_dfs 0 nd out = Inl RecursionError"
| "ser_dfs (Suc depth) None out = Inl AttributeError"
| "ser_dfs (Suc depth) (Some (Node (Some s) f l r)) out = Inr (out @ [1, s])"
| "ser_dfs (Suc depth) (Some (Node None f l r)) out =
     (case ser_dfs depth l (out @ [0]) of
        Inl e \<Rightarrow> Inl e
      | Inr out1 \<Rightarrow> ser_dfs depth r out1)"

definition serialize :: "nat \<Rightarrow> node option \<Rightarrow> error + byte list" where
  "serialize depth root_node = (if root_node = None then Inr [] else ser_dfs depth root_node [])"

text \<open>
  \<open>deserialize\<close>, lines 128-158. The inner \<open>dfs(i)\<close> reads \<open>blob\<close> from index \<open>i\<close>
  and returns the node with the index after it. Every read \<open>blob[i]\<close> is behind the
  test \<open>i >= n\<close>. The first argument counts the free frames as in \<open>ser_dfs\<close>; an
  exception of an inner call, \<open>RecursionError\<close> included, passes through the outer ones.
\<close>

fun des_dfs :: "nat \<Rightarrow> byte list \<Rightarrow> nat \<Rightarrow> error + (node \<times> nat)" where
  "des_dfs 0 blob i = Inl RecursionError"
| "des_dfs (Suc depth) blob i =
     (if i \<ge> length blob then Inl (ValueError BadTreeRanOut)
      else let flag = blob ! i; i1 = i + 1 in
        if flag = 1 then
          (if i1 \<ge> length blob then Inl (ValueError BadTreeLeafMissing)
           else Inr (Node (Some (blob ! i1)) 0 None None, i1 + 1))
        else if flag = 0 then
          (case des_dfs depth blob i1 of
             Inl e \<Rightarrow> Inl e
           | Inr (left_node, i2) \<Rightarrow>
               (case des_dfs depth blob i2 of
                  Inl e \<Rightarrow> Inl e
                | Inr (right_node, i3) \<Rightarrow> Inr (Node None 0 (Some left_node) (Some right_node), i3)))
        else Inl (ValueError (BadTreeFlag flag (i1 - 1))))"

declare des_dfs.simps [simp del]

definition deserialize :: "nat \<Rightarrow> byte list \<Rightarrow> error + node option" where
  "deserialize depth blob =
     (if blob = [] then Inr None
      else case des_dfs depth blob 0 of
             Inl e \<Rightarrow> Inl e
           | Inr (root_node, next_i) \<Rightarrow>
               if next_i \<noteq> length blob then Inl (ValueError ExtraBytes)
               else Inr (Some root_node))"


section \<open>Frequency count\<close>

definition MAGIC :: "byte list" where
  "MAGIC = [72, 85, 70, 70]"  \<comment> \<open>\<open>b'HUFF'\<close>\<close>

text \<open>
  \<open>build_freq_map\<close>, lines 55-57: \<open>dict(Counter(data))\<close>. A \<open>Counter\<close> is filled by
  \<open>self[elem] = self.get(elem, 0) + 1\<close> for every element in order, and a \<open>dict\<close> keeps
  its keys in the order of their first insertion, which is the order \<open>items()\<close> yields
  later. The dict is an association list with that order.
\<close>

definition count_elem :: "(byte \<times> int) list \<Rightarrow> byte \<Rightarrow> (byte \<times> int) list" where
  "count_elem m b =
     AList.update b ((case map_of m b of None \<Rightarrow> 0 | Some c \<Rightarrow> c) + 1) m"

definition build_freq_map :: "byte list \<Rightarrow> (byte \<times> int) list" where
  "build_freq_map data = foldl count_elem [] data"

section \<open>The heap of the standard library\<close>

text \<open>
  \<open>heapq\<close> is not part of the repository; \<open>heappush\<close> and \<open>heappop\<close> are modelled on
  CPython's \<open>Lib/heapq.py\<close> (\<open>_siftdown\<close>, \<open>_siftup\<close>), a binary min-heap in a list.
  Items are compared with \<open>Node.__lt__\<close>, lines 21-23, which compares \<open>freq\<close> only. The
  list is mutated in place in Python and returned updated here. Every index read below is
  inside the list at its call sites.
\<close>

definition node_lt :: "node \<Rightarrow> node \<Rightarrow> bool" where
  "node_lt a b = (freq a < freq b)"

function siftdown_loop :: "node list \<Rightarrow> nat \<Rightarrow> node \<Rightarrow> nat \<Rightarrow> node list \<times> nat" where
  "siftdown_loop heap startpos newitem pos =
     (if pos > startpos then
        let parentpos = (pos - 1) div 2;
            parent = heap ! parentpos
        in if node_lt newitem parent
           then siftdown_loop (heap[pos := parent]) startpos newitem parentpos
           else (heap, pos)
      else (heap, pos))"
  by pat_completeness auto
termination
  by (relation "measure (\<lambda>(heap, startpos, newitem, pos). pos)") auto

declare siftdown_loop.simps [simp del]

definition siftdown :: "node list \<Rightarrow> nat \<Rightarrow> nat \<Rightarrow> node list" where
  "siftdown heap startpos pos =
     (let newitem = heap ! pos;
          (heap1, pos1) = siftdown_loop heap startpos newitem pos
      in heap1[pos1 := newitem])"

function siftup_loop :: "node list \<Rightarrow> nat \<Rightarrow> nat \<Rightarrow> node list \<times> nat" where
  "siftup_loop heap endpos pos =
     (let childpos = 2 * pos + 1 in
      if childpos < endpos then
        let rightpos = childpos + 1;
            childpos1 = (if rightpos < endpos \<and> \<not> node_lt (heap ! childpos) (heap ! rightpos)
                         then rightpos else childpos)
        in siftup_loop (heap[pos := heap ! childpos1]) endpos childpos1
      else (heap, pos))"
  by pat_completeness auto
termination
  by (relation "measure (\<lambda>(heap, endpos, pos). endpos - pos)") auto

declare siftup_loop.simps [simp del]

definition siftup :: "node list \<Rightarrow> nat \<Rightarrow> node list" where
  "siftup heap pos =
     (let endpos = length heap;
          startpos = pos;
          newitem = heap ! pos;
          (heap1, pos1) = siftup_loop heap endpos pos
      in siftdown (heap1[pos1 := newitem]) startpos pos1)"

definition heappush :: "node list \<Rightarrow> node \<Rightarrow> node list" where
  "heappush heap item = (let heap1 = heap @ [item] in siftdown heap1 0 (length heap1 - 1))"

text \<open>\<open>heap.pop()\<close> raises \<open>IndexError\<close> on an empty list.\<close>

definition heappop :: "node list \<Rightarrow> error + (node \<times> node list)" where
  "heappop heap =
     (if heap = [] then Inl IndexError
      else let lastelt = last heap; heap1 = butlast heap in
        if heap1 \<noteq> [] then
          let returnitem = heap1 ! 0
          in Inr (returnitem, siftup (heap1[0 := lastelt]) 0)
        else Inr (lastelt, heap1))"

section \<open>Heap and Huffman tree\<close>

text \<open>\<open>heap_from_freq\<close>, lines 62-66.\<close>

definition heap_from_freq :: "(byte \<times> int) list \<Rightarrow> node list" where
  "heap_from_freq freq_map =
     foldl (\<lambda>h (s, fr). heappush h (Node (Some s) fr None None)) [] freq_map"

lemma siftdown_loop_length:
  "length (fst (siftdown_loop heap startpos newitem pos)) = length heap"
proof (induction heap startpos newitem pos rule: siftdown_loop.induct)
  case (1 heap startpos newitem pos)
  then show ?case
    by (subst siftdown_loop.simps) (simp add: Let_def)
qed

lemma siftdown_length: "length (siftdown heap startpos pos) = length heap"
  using siftdown_loop_length[of heap startpos "heap ! pos" pos]
  by (auto simp: siftdown_def Let_def split: prod.splits)

lemma siftup_loop_length:
  "length (fst (siftup_loop heap endpos pos)) = length heap"
proof (induction heap endpos pos rule: siftup_loop.induct)
  case (1 heap endpos pos)
  then show ?case
    by (subst siftup_loop.simps) (simp add: Let_def)
qed

lemma siftup_length: "length (siftup heap pos) = length heap"
  using siftup_loop_length[of heap "length heap" pos]
  by (auto simp: siftup_def Let_def siftdown_length split: prod.splits)

lemma heappush_length: "length (heappush heap item) = Suc (length heap)"
  by (simp add: heappush_def Let_def siftdown_length)

lemma heappop_length: "heappop heap = Inr (x, heap1) \<Longrightarrow> Suc (length heap1) = length heap"
  by (cases heap rule: rev_cases) (auto simp: heappop_def Let_def siftup_length split: if_splits)

text \<open>
  \<open>build_tree\<close>, lines 68-85. The merge loop of lines 78-85 is \<open>build_loop\<close>; each
  round pops two nodes and pushes one.
\<close>

function build_loop :: "node list \<Rightarrow> error + node option" where
  "build_loop h =
     (if length h > 1 then
        (case heappop h of
           Inl e \<Rightarrow> Inl e
         | Inr (a, h1) \<Rightarrow>
             (case heappop h1 of
                Inl e \<Rightarrow> Inl e
              | Inr (b, h2) \<Rightarrow>
                  build_loop (heappush h2 (Node None (freq a + freq b) (Some a) (Some b)))))
      else
        (case heappop h of
           Inl e \<Rightarrow> Inl e
         | Inr (root_node, h1) \<Rightarrow> Inr (Some root_node)))"
  by pat_completeness auto
termination
proof (relation "measure length", goal_cases)
  case 1
  show ?case by simp
next
  case (2 h x xa y xb xc ya)
  then show ?case
    using heappop_length[of h xa y] heappop_length[of y xc ya]
    by (simp add: heappush_length)
qed

declare build_loop.simps [simp del]

definition build_tree :: "node list \<Rightarrow> error + node option" where
  "build_tree h =
     (if h = [] then Inr None
      else if length h = 1 then
        (case heappop h of
           Inl e \<Rightarrow> Inl e
         | Inr (single, h1) \<Rightarrow> Inr (Some (Node None (freq single) (Some single) None)))
      else build_loop h)"


section \<open>Code table\<close>

text \<open>
  \<open>make_codes\<close>, lines 90-106. The inner \<open>walk\<close> writes into the dict \<open>codes\<close>, which
  is passed through here; the dict is only read by key later, so it is a map. A \<open>Node\<close>
  object is always true in \<open>if node.left\<close>, so the tests are tests against \<open>None\<close>.
  \<open>walk\<close> is recursive as well; it is applied to the trees of \<open>build_tree\<close> only,
  which have at most 256 leaves and as many levels, so its frames are not counted.
\<close>

fun walk :: "node \<Rightarrow> string \<Rightarrow> (byte \<rightharpoonup> string) \<Rightarrow> (byte \<rightharpoonup> string)" where
  "walk (Node (Some s) f l r) pfx codes = codes(s \<mapsto> (if pfx \<noteq> [] then pfx else ''0''))"
| "walk (Node None f l r) pfx codes =
     (let codes1 = (case l of None \<Rightarrow> codes | Some lnode \<Rightarrow> walk lnode (pfx @ ''0'') codes)
      in case r of None \<Rightarrow> codes1 | Some rnode \<Rightarrow> walk rnode (pfx @ ''1'') codes1)"

definition make_codes :: "node option \<Rightarrow> (byte \<rightharpoonup> string)" where
  "make_codes root_node =
     (case root_node of None \<Rightarrow> Map.empty | Some n \<Rightarrow> walk n [] Map.empty)"

section \<open>Bit packing\<close>

text \<open>\<open>encode_bytes\<close>, lines 164-168; \<open>codes[b]\<close> raises \<open>KeyError\<close> on a missing key.\<close>

fun encode_bytes :: "byte list \<Rightarrow> (byte \<rightharpoonup> string) \<Rightarrow> error + string" where
  "encode_bytes [] codes = Inr []"
| "encode_bytes (b # data) codes =
     (case codes b of
        None \<Rightarrow> Inl (KeyError b)
      | Some c \<Rightarrow>
          (case encode_bytes data codes of
             Inl e \<Rightarrow> Inl e
           | Inr rest \<Rightarrow> Inr (c @ rest)))"

text \<open>\<open>pad_bits\<close>, lines 170-175.\<close>

definition pad_bits :: "string \<Rightarrow> string \<times> nat" where
  "pad_bits bits =
     (if length bits = 0 then ([], 0)
      else let extra = (8 - (length bits mod 8)) mod 8
           in (bits @ replicate extra (CHR ''0''), extra))"

text \<open>
  \<open>int(byte, 2)\<close> of line 181. A non-empty string of the characters \<open>0\<close> and \<open>1\<close> has
  its binary value, which is all that \<open>bits_to_bytes\<close> is given by the compressor. Every
  other string is a \<open>ValueError\<close> here, although Python also accepts a sign, the prefix
  \<open>0b\<close>, underscores and surrounding whitespace.
\<close>

fun bin_value :: "string \<Rightarrow> nat \<Rightarrow> error + nat" where
  "bin_value [] acc = Inr acc"
| "bin_value (c # cs) acc =
     (if c = CHR ''0'' then bin_value cs (2 * acc)
      else if c = CHR ''1'' then bin_value cs (2 * acc + 1)
      else Inl (ValueError BadBinaryLiteral))"

definition int_base2 :: "string \<Rightarrow> error + nat" where
  "int_base2 s = (if s = [] then Inl (ValueError BadBinaryLiteral) else bin_value s 0)"

text \<open>
  \<open>bits_to_bytes\<close>, lines 177-182: one byte for every slice \<open>bits[i:i+8]\<close>;
  \<open>bytearray.append\<close> raises \<open>ValueError\<close> outside 0..255.
\<close>

function bits_to_bytes :: "string \<Rightarrow> error + byte list" where
  "bits_to_bytes bits =
     (if bits = [] then Inr []
      else case int_base2 (take 8 bits) of
             Inl e \<Rightarrow> Inl e
           | Inr v \<Rightarrow>
               if v > 255 then Inl (ValueError ByteOutOfRange)
               else (case bits_to_bytes (drop 8 bits) of
                       Inl e \<Rightarrow> Inl e
                     | Inr arr \<Rightarrow> Inr (of_nat v # arr)))"
  by pat_completeness auto
termination
  by (relation "measure length") auto

declare bits_to_bytes.simps [simp del]

text \<open>\<open>bytes_to_bits\<close>, lines 184-185: \<open>f"{x:08b}"\<close> is eight binary digits, high bit first.\<close>

definition format_08b :: "byte \<Rightarrow> string" where
  "format_08b x =
     map (\<lambda>i. if (unat x div 2 ^ i) mod 2 = 1 then CHR ''1'' else CHR ''0'') (rev [0..<8])"

definition bytes_to_bits :: "byte list \<Rightarrow> string" where
  "bytes_to_bits bts = concat (map format_08b bts)"

section \<open>Container fields\<close>

text \<open>
  \<open>struct.pack(">I", n)\<close> and \<open>struct.pack("B", n)\<close> raise \<open>struct.error\<close> when the
  number does not fit; \<open>struct.unpack(">I", b)\<close> raises it when \<open>b\<close> is not 4 bytes long.
\<close>

definition pack_be32 :: "nat \<Rightarrow> error + byte list" where
  "pack_be32 n =
     (if n \<ge> 2 ^ 32 then Inl StructError
      else Inr [of_nat (n div 2 ^ 24), of_nat (n div 2 ^ 16), of_nat (n div 2 ^ 8), of_nat n])"

definition pack_u8 :: "nat \<Rightarrow> error + byte list" where
  "pack_u8 n = (if n > 255 then Inl StructError else Inr [of_nat n])"

fun unpack_be32 :: "byte list \<Rightarrow> error + nat" where
  "unpack_be32 [a, b, c, d] = Inr (unat a * 2 ^ 24 + unat b * 2 ^ 16 + unat c * 2 ^ 8 + unat d)"
| "unpack_be32 bs = Inl StructError"

section \<open>Files and paths\<close>

text \<open>
  A file system has the files that exist, each with its bytes, and says which file a path
  names. Two paths can name the same file, as \<open>a.txt\<close> and \<open>./a.txt\<close> do, or a link
  and its target: then \<open>file_of\<close> gives the same file for both, which is what
  \<open>os.path.samefile\<close> tests, and what is written through one path is read through the
  other. Directories and permissions are not modelled, and writing a file always
  succeeds. A call that raises returns only the exception: the file system it leaves
  behind is not modelled. Paths are strings of 8-bit characters read as Latin-1, and
  files are identified by strings as well.
\<close>

record fs =
  file_of :: "string \<Rightarrow> string"
  content :: "string \<rightharpoonup> byte list"

definition read_file_bytes :: "fs \<Rightarrow> string \<Rightarrow> error + byte list" where
  "read_file_bytes files path =
     (case content files (file_of files path) of
        None \<Rightarrow> Inl FileNotFoundError
      | Some b \<Rightarrow> Inr b)"

text \<open>\<open>with open(path, 'wb') as f: f.write(...)\<close>: the file of the path gets the bytes.\<close>

definition write_file :: "fs \<Rightarrow> string \<Rightarrow> byte list \<Rightarrow> fs" where
  "write_file files path bytes =
     files\<lparr>content := (content files)(file_of files path \<mapsto> bytes)\<rparr>"

text \<open>\<open>str.strip()\<close> and \<open>str.lower()\<close> on the characters below 256.\<close>

definition py_isspace :: "char \<Rightarrow> bool" where
  "py_isspace c =
     (let n = (of_char c :: nat)
      in (9 \<le> n \<and> n \<le> 13) \<or> (28 \<le> n \<and> n \<le> 32) \<or> n = 133 \<or> n = 160)"

definition py_strip :: "string \<Rightarrow> string" where
  "py_strip s = rev (dropWhile py_isspace (rev (dropWhile py_isspace s)))"

definition py_lower_char :: "char \<Rightarrow> char" where
  "py_lower_char c =
     (let n = (of_char c :: nat)
      in if (65 \<le> n \<and> n \<le> 90) \<or> (192 \<le> n \<and> n \<le> 222 \<and> n \<noteq> 215)
         then char_of (n + 32) else c)"

definition py_lower :: "string \<Rightarrow> string" where
  "py_lower s = map py_lower_char s"

definition already_compressed_exts :: "string list" where
  "already_compressed_exts =
     [''.zip'', ''.gz'', ''.7z'', ''.rar'', ''.jpeg'', ''.jpg'', ''.png'', ''.gif'',
      ''.mp3'', ''.mp4'', ''.avi'', ''.mov'', ''.odt'', ''.docx'', ''.xlsx'']"

text \<open>
  \<open>shutil.copy(src, dst)\<close> of the standard library: \<open>SameFileError\<close> when both paths
  name the same file, whatever their spelling; otherwise the destination gets the content
  the source has at that moment.
\<close>

definition shutil_copy :: "fs \<Rightarrow> string \<Rightarrow> string \<Rightarrow> error + fs" where
  "shutil_copy files src dst =
     (if file_of files src = file_of files dst then Inl SameFileError
      else case content files (file_of files src) of
             None \<Rightarrow> Inl FileNotFoundError
           | Some bytes \<Rightarrow> Inr (write_file files dst bytes))"


section \<open>Compressor\<close>

text \<open>
  The statistics dict of \<open>compress_file\<close>. The timing entries read the clock and are left
  out, and the entries \<open>input\<close>, \<open>output\<close> and \<open>note\<close> are the fields \<open>c_input\<close>,
  \<open>c_output\<close> and \<open>skip_note\<close>. The ratio and the percentage are Python floats; they are exact reals here, which
  agrees with Python on the constants \<open>1.0\<close> and \<open>0.0\<close> of the skip paths. The notes are
  \<^item> \<open>AlreadyHuff\<close>: "Input file is already in .huff format (double-compression prevented)."
  \<^item> \<open>LikelyCompressed\<close>: "This file type is likely already compressed (skipped compression)."
  \<^item> \<open>CannotReduce\<close>: "The uploaded file appears to be already compressed; compression
    cannot reduce its size."
\<close>

datatype notice = AlreadyHuff | LikelyCompressed | CannotReduce

record cstats =
  c_input :: string
  c_output :: string
  original_bytes :: nat
  compressed_bytes :: nat
  unique_symbols :: nat
  pad_count :: "nat option"
  compression_ratio :: "real option"
  space_saved_percent :: "real option"
  skipped :: bool
  skip_note :: "notice option"

text \<open>
  Lines 250-264 of \<open>compress_file\<close>: tree, codes, packed payload and tree blob of the
  bytes read. The result is \<open>(root, len(freq), pad_count, compressed, tree_blob)\<close>.
\<close>

definition huffman_parts ::
  "byte list \<Rightarrow> error + (node option \<times> nat \<times> nat \<times> byte list \<times> byte list)" where
  "huffman_parts raw =
     (let freq_map = build_freq_map raw;
          h = heap_from_freq freq_map
      in case build_tree h of
           Inl e \<Rightarrow> Inl e
         | Inr root_node \<Rightarrow>
             let codes = make_codes root_node
             in case (if root_node \<noteq> None then encode_bytes raw codes else Inr []) of
                  Inl e \<Rightarrow> Inl e
                | Inr bitstr \<Rightarrow>
                    let (padded, pad_cnt) = pad_bits bitstr
                    in case bits_to_bytes padded of
                         Inl e \<Rightarrow> Inl e
                       | Inr compressed \<Rightarrow>
                           (case serialize call_depth root_node of
                              Inl e \<Rightarrow> Inl e
                            | Inr tree_blob \<Rightarrow>
                                Inr (root_node, length freq_map, pad_cnt, compressed, tree_blob)))"

text \<open>Lines 267-272: the bytes written to the destination, in order.\<close>

definition container_bytes :: "byte list \<Rightarrow> nat \<Rightarrow> byte list \<Rightarrow> error + byte list" where
  "container_bytes tree_blob pad_cnt compressed =
     (case pack_be32 (length tree_blob) of
        Inl e \<Rightarrow> Inl e
      | Inr len_field \<Rightarrow>
          (case pack_u8 pad_cnt of
             Inl e \<Rightarrow> Inl e
           | Inr pad_field \<Rightarrow> Inr (MAGIC @ len_field @ tree_blob @ pad_field @ compressed)))"

text \<open>\<open>compress_file\<close>, lines 191-326. It returns the file system with \<open>(root, stats)\<close>.\<close>

definition compress_file ::
  "fs \<Rightarrow> string \<Rightarrow> string \<Rightarrow> error + (fs \<times> node option \<times> cstats)" where
  "compress_file files src dst =
     (let src_str = py_lower (py_strip src)
      in case read_file_bytes files src of
           Inl e \<Rightarrow> Inl e
         | Inr raw \<Rightarrow>
             let orig = length raw in
             if prefix MAGIC raw \<or> suffix ''.huff'' src_str then
               Inr (files, None,
                 \<lparr>c_input = src, c_output = dst, original_bytes = orig,
                  compressed_bytes = length raw, unique_symbols = 0, pad_count = None,
                  compression_ratio = None, space_saved_percent = None,
                  skipped = True, skip_note = Some AlreadyHuff\<rparr>)
             else if list_ex (\<lambda>ext. suffix ext src_str) already_compressed_exts then
               Inr (files, None,
                 \<lparr>c_input = src, c_output = dst, original_bytes = orig,
                  compressed_bytes = orig, unique_symbols = 0, pad_count = None,
                  compression_ratio = Some 1, space_saved_percent = Some 0,
                  skipped = True, skip_note = Some LikelyCompressed\<rparr>)
             else
               (case huffman_parts raw of
                  Inl e \<Rightarrow> Inl e
                | Inr (root_node, unique, pad_cnt, compressed, tree_blob) \<Rightarrow>
                    (case container_bytes tree_blob pad_cnt compressed of
                       Inl e \<Rightarrow> Inl e
                     | Inr container \<Rightarrow>
                         let files1 = write_file files dst container;
                             tree_len = length tree_blob;
                             compressed_bytes_total = 4 + 4 + tree_len + 1 + length compressed
                         in if compressed_bytes_total \<ge> orig then
                              (case shutil_copy files1 src dst of
                                 Inl e \<Rightarrow> Inl e
                               | Inr files2 \<Rightarrow>
                                   Inr (files2, None,
                                     \<lparr>c_input = src, c_output = dst, original_bytes = orig,
                                      compressed_bytes = orig, unique_symbols = unique,
                                      pad_count = Some pad_cnt,
                                      compression_ratio = Some 1, space_saved_percent = Some 0,
                                      skipped = True, skip_note = Some CannotReduce\<rparr>))
                            else
                              Inr (files1, root_node,
                                \<lparr>c_input = src, c_output = dst, original_bytes = orig,
                                 compressed_bytes = compressed_bytes_total,
                                 unique_symbols = unique, pad_count = Some pad_cnt,
                                 compression_ratio =
                                   (if orig > 0
                                    then Some (real compressed_bytes_total / real orig)
                                    else None),
                                 space_saved_percent =
                                   (if orig > 0
                                    then Some ((real orig - real compressed_bytes_total)
                                                 / real orig * 100)
                                    else None),
                                 skipped = False, skip_note = None\<rparr>))))"

section \<open>Decompressor\<close>

record dstats =
  input_huff :: string
  d_output :: string
  compressed_size :: nat
  restored_size :: nat
  d_pad_count :: nat

text \<open>
  Lines 336-353 of \<open>decompress_file\<close>: the header checks and the fields cut out of the
  file. The result is \<open>(tree_len, tree_blob, pad_count, comp_bytes)\<close>.
\<close>

definition parse_container ::
  "byte list \<Rightarrow> error + (nat \<times> byte list \<times> nat \<times> byte list)" where
  "parse_container raw =
     (if length raw < 9 then Inl (ValueError TooSmall)
      else if take 4 raw \<noteq> MAGIC then Inl (ValueError MagicMismatch)
      else case unpack_be32 (take 4 (drop 4 raw)) of
             Inl e \<Rightarrow> Inl e
           | Inr tree_len \<Rightarrow>
               let cursor = 8 in
               if cursor + tree_len + 1 > length raw then Inl (ValueError TreeLenUnrealistic)
               else let tree_blob = take tree_len (drop cursor raw);
                        cursor1 = cursor + tree_len;
                        pad_cnt = unat (raw ! cursor1);
                        cursor2 = cursor1 + 1;
                        comp_bytes = drop cursor2 raw
                    in Inr (tree_len, tree_blob, pad_cnt, comp_bytes))"

text \<open>Lines 354-358: the bit string without its padding.\<close>

definition unpad_bits :: "byte list \<Rightarrow> nat \<Rightarrow> error + string" where
  "unpad_bits comp_bytes pad_cnt =
     (let bitstr = (if comp_bytes \<noteq> [] then bytes_to_bits comp_bytes else [])
      in if pad_cnt > 0 then
           (if pad_cnt > length bitstr then Inl (ValueError PaddingTooBig)
            else Inr (take (length bitstr - pad_cnt) bitstr))
         else Inr bitstr)"

text \<open>
  Lines 368-381: the walk over the bits, with the loop state \<open>node\<close>, \<open>i\<close>, \<open>out\<close>.
\<close>

function decode_loop ::
  "node \<Rightarrow> string \<Rightarrow> node \<Rightarrow> nat \<Rightarrow> byte list \<Rightarrow> error + byte list" where
  "decode_loop root_node bitstr nd i out =
     (if i < length bitstr then
        let bit = bitstr ! i
        in case (if bit = CHR ''0'' then left nd else right nd) of
             None \<Rightarrow> Inl (ValueError CorruptBitstream)
           | Some nd1 \<Rightarrow>
               (case sym nd1 of
                  Some s \<Rightarrow> decode_loop root_node bitstr root_node (i + 1) (out @ [s])
                | None \<Rightarrow> decode_loop root_node bitstr nd1 (i + 1) out)
      else Inr out)"
  by pat_completeness auto
termination
  by (relation "measure (\<lambda>(root_node, bitstr, nd, i, out). length bitstr - i)") auto

declare decode_loop.simps [simp del]

definition decode :: "node option \<Rightarrow> string \<Rightarrow> error + byte list" where
  "decode root_node bitstr =
     (case root_node of
        None \<Rightarrow> Inr []
      | Some r \<Rightarrow> decode_loop r bitstr r 0 [])"

text \<open>\<open>decompress_file\<close>, lines 331-401.\<close>

definition decompress_file :: "fs \<Rightarrow> string \<Rightarrow> string \<Rightarrow> error + (fs \<times> dstats)" where
  "decompress_file files src dst =
     (case read_file_bytes files src of
        Inl e \<Rightarrow> Inl e
      | Inr raw \<Rightarrow>
          (case parse_container raw of
             Inl e \<Rightarrow> Inl e
           | Inr (tree_len, tree_blob, pad_cnt, comp_bytes) \<Rightarrow>
               (case unpad_bits comp_bytes pad_cnt of
                  Inl e \<Rightarrow> Inl e
                | Inr bitstr \<Rightarrow>
                    (case (if tree_len > 0 then deserialize call_depth tree_blob else Inr None) of
                       Inl e \<Rightarrow> Inl e
                     | Inr root_node \<Rightarrow>
                         (case decode root_node bitstr of
                            Inl e \<Rightarrow> Inl e
                          | Inr decoded \<Rightarrow>
                              Inr (write_file files dst decoded,
                                \<lparr>input_huff = src, d_output = dst,
                                 compressed_size = length raw,
                                 restored_size = length decoded,
                                 d_pad_count = pad_cnt\<rparr>))))))"


section \<open>Notions of the specification\<close>

text \<open>
  The data model of the specification: a node is a leaf with a symbol and no children, or
  an internal node with no symbol and two children that are both present.
\<close>

fun full :: "node \<Rightarrow> bool" where
  "full (Node (Some s) f l r) = (l = None \<and> r = None)"
| "full (Node None f l r) =
     ((case l of None \<Rightarrow> False | Some a \<Rightarrow> full a) \<and> (case r of None \<Rightarrow> False | Some b \<Rightarrow> full b))"

text \<open>The same tree with every weight replaced by 0; shape and symbols are kept.\<close>

fun zero_weights :: "node \<Rightarrow> node" where
  "zero_weights (Node s f l r) = Node s 0 (map_option zero_weights l) (map_option zero_weights r)"

text \<open>The preorder encoding as a function of the tree, without errors and buffer.\<close>

fun enc :: "node \<Rightarrow> byte list" where
  "enc (Node (Some s) f l r) = [1, s]"
| "enc (Node None f l r) =
     0 # (case l of None \<Rightarrow> [] | Some a \<Rightarrow> enc a) @ (case r of None \<Rightarrow> [] | Some b \<Rightarrow> enc b)"

text \<open>
  The number of nodes on the longest path from the root of a tree to a leaf: the frames
  that the inner \<open>dfs\<close> of \<open>serialize\<close> and \<open>deserialize\<close> needs for the tree.
\<close>

fun levels :: "node \<Rightarrow> nat" where
  "levels (Node (Some s) f l r) = 1"
| "levels (Node None f l r) =
     Suc (max (case l of None \<Rightarrow> 0 | Some a \<Rightarrow> levels a) (case r of None \<Rightarrow> 0 | Some b \<Rightarrow> levels b))"


text \<open>The file system with the given files in which every path names a file of its own.\<close>

definition plain_fs :: "(string \<rightharpoonup> byte list) \<Rightarrow> fs" where
  "plain_fs m = \<lparr>file_of = (\<lambda>path. path), content = m\<rparr>"




text \<open>
  The two tests on the name that make \<open>compress_file\<close> skip (lines 214 and 232): the
  stripped, lower-cased path ends with \<open>.huff\<close> or with an extension of the list.
\<close>

definition name_skipped :: "string \<Rightarrow> bool" where
  "name_skipped src =
     (let src_str = py_lower (py_strip src)
      in suffix ''.huff'' src_str \<or> list_ex (\<lambda>ext. suffix ext src_str) already_compressed_exts)"

text \<open>The big-endian 32-bit number in bytes 4 to 7 of a file: the declared tree length.\<close>

definition declared_tree_len :: "byte list \<Rightarrow> nat" where
  "declared_tree_len raw =
     unat (raw ! 4) * 2 ^ 24 + unat (raw ! 5) * 2 ^ 16 + unat (raw ! 6) * 2 ^ 8 + unat (raw ! 7)"

text \<open>
  The symbols at the leaves of a tree from left to right, and each of them with the path
  that leads to it (\<open>0\<close> for left, \<open>1\<close> for right). A node with a symbol counts as a
  leaf, as in \<open>walk\<close>.
\<close>

fun leaves :: "node \<Rightarrow> byte list" where
  "leaves (Node (Some s) f l r) = [s]"
| "leaves (Node None f l r) =
     (case l of None \<Rightarrow> [] | Some a \<Rightarrow> leaves a) @ (case r of None \<Rightarrow> [] | Some b \<Rightarrow> leaves b)"

fun paths :: "node \<Rightarrow> (byte \<times> string) list" where
  "paths (Node (Some s) f l r) = [(s, [])]"
| "paths (Node None f l r) =
     (case l of None \<Rightarrow> [] | Some a \<Rightarrow> map (\<lambda>(s, p). (s, CHR ''0'' # p)) (paths a))
     @ (case r of None \<Rightarrow> [] | Some b \<Rightarrow> map (\<lambda>(s, p). (s, CHR ''1'' # p)) (paths b))"

text \<open>The symbols of all trees of a heap.\<close>

definition heap_syms :: "node multiset \<Rightarrow> byte multiset" where
  "heap_syms M = (\<Sum>t\<in>#M. mset (leaves t))"

text \<open>The code that \<open>walk\<close> stores for a prefix (line 98).\<close>

definition nonempty_code :: "string \<Rightarrow> string" where
  "nonempty_code pfx = (if pfx \<noteq> [] then pfx else ''0'')"

text \<open>
  Bit strings: the strings over \<open>0\<close> and \<open>1\<close>, the number a bit string denotes with the
  high bit first, and the \<open>k\<close> lowest binary digits of a number, high bit first.
\<close>

definition is_bits :: "string \<Rightarrow> bool" where
  "is_bits s = (set s \<subseteq> {CHR ''0'', CHR ''1''})"

definition bit_value :: "string \<Rightarrow> nat" where
  "bit_value s = foldl (\<lambda>a c. 2 * a + (if c = CHR ''1'' then 1 else 0)) 0 s"

definition digits :: "nat \<Rightarrow> nat \<Rightarrow> string" where
  "digits k n = map (\<lambda>i. if (n div 2 ^ i) mod 2 = 1 then CHR ''1'' else CHR ''0'') (rev [0..<k])"

text \<open>
  The decoder's walk as a recursion over the bits still to read; \<open>decode_loop\<close> at index
  \<open>i\<close> is this walk over the bits from \<open>i\<close> on.
\<close>

fun walk_bits :: "node \<Rightarrow> node \<Rightarrow> string \<Rightarrow> byte list \<Rightarrow> error + byte list" where
  "walk_bits r nd [] out = Inr out"
| "walk_bits r nd (c # bits) out =
     (case (if c = CHR ''0'' then left nd else right nd) of
        None \<Rightarrow> Inl (ValueError CorruptBitstream)
      | Some nd1 \<Rightarrow>
          (case sym nd1 of
             Some s \<Rightarrow> walk_bits r r bits (out @ [s])
           | None \<Rightarrow> walk_bits r nd1 bits out))"


section \<open>Properties of the tree codec\<close>

lemma enc_nonempty: "enc t \<noteq> []"
  by (cases t rule: enc.cases) auto

lemma ser_dfs_full:
  "full t \<Longrightarrow> levels t \<le> d \<Longrightarrow> ser_dfs d (Some t) out = Inr (out @ enc t)"
proof (induction t arbitrary: out d rule: full.induct)
  case (1 s f l r)
  then obtain d' where "d = Suc d'" by (cases d) auto
  then show ?case by simp
next
  case (2 f l r)
  then obtain a b where l: "l = Some a" and r: "r = Some b" and fa: "full a" and fb: "full b"
    by (auto split: option.splits)
  from 2(4) obtain d' where d: "d = Suc d'" and la: "levels a \<le> d'" and lb: "levels b \<le> d'"
    by (cases d) (auto simp: l r)
  from 2(1)[OF l fa la] 2(2)[OF r fb lb] show ?case by (simp add: d l r)
qed


lemma des_dfs_enc:
  "full t \<Longrightarrow> levels t \<le> d \<Longrightarrow>
     des_dfs d (pre @ enc t @ rest) (length pre)
       = Inr (zero_weights t, length pre + length (enc t))"
proof (induction t arbitrary: pre rest d rule: full.induct)
  case (1 s f l r)
  then obtain d' where "d = Suc d'" by (cases d) auto
  with 1 show ?case
    by (simp add: des_dfs.simps nth_append Let_def)
next
  case (2 f l r)
  then obtain a b where l: "l = Some a" and r: "r = Some b" and fa: "full a" and fb: "full b"
    by (auto split: option.splits)
  from 2(4) obtain d' where d: "d = Suc d'" and la: "levels a \<le> d'" and lb: "levels b \<le> d'"
    by (cases d) (auto simp: l r)
  have A: "des_dfs d' ((pre @ [0]) @ enc a @ (enc b @ rest)) (length (pre @ [0]))
      = Inr (zero_weights a, length (pre @ [0]) + length (enc a))"
    by (rule 2(1)[OF l fa la])
  have B: "des_dfs d' ((pre @ [0] @ enc a) @ enc b @ rest) (length (pre @ [0] @ enc a))
      = Inr (zero_weights b, length (pre @ [0] @ enc a) + length (enc b))"
    by (rule 2(2)[OF r fb lb])
  show ?case
    unfolding d
    apply (subst des_dfs.simps)
    using A B by (simp add: l r nth_append Let_def add.assoc)
qed

lemma des_dfs_bounds:
  "des_dfs d blob i = Inr (t, j) \<Longrightarrow> i < j \<and> j \<le> length blob"
proof (induction d arbitrary: i t j)
  case 0
  then show ?case by (simp add: des_dfs.simps)
next
  case (Suc d)
  from Suc.prems have lt: "i < length blob"
    by (subst (asm) des_dfs.simps) (auto split: if_splits)
  show ?case
  proof (cases "blob ! i = 1")
    case True
    with lt Suc.prems show ?thesis
      by (subst (asm) des_dfs.simps) (auto simp: Let_def split: if_splits)
  next
    case n1: False
    show ?thesis
    proof (cases "blob ! i = 0")
      case True
      from Suc.prems lt n1 True obtain l i2 r where
        l: "des_dfs d blob (i + 1) = Inr (l, i2)" and r: "des_dfs d blob i2 = Inr (r, j)"
        by (subst (asm) des_dfs.simps) (auto simp: Let_def split: sum.splits)
      from Suc.IH[OF l] Suc.IH[OF r] show ?thesis by simp
    next
      case False
      with n1 lt Suc.prems show ?thesis
        by (subst (asm) des_dfs.simps) (simp add: Let_def)
    qed
  qed
qed

lemma des_dfs_sound:
  "des_dfs d blob i = Inr (t, j) \<Longrightarrow>
     full t \<and> zero_weights t = t \<and> take (j - i) (drop i blob) = enc t"
proof (induction d arbitrary: i t j)
  case 0
  then show ?case by (simp add: des_dfs.simps)
next
  case (Suc d)
  from Suc.prems have lt: "i < length blob"
    by (subst (asm) des_dfs.simps) (auto split: if_splits)
  show ?case
  proof (cases "blob ! i = 1")
    case True
    with lt Suc.prems
    have "Suc i < length blob" "t = Node (Some (blob ! Suc i)) 0 None None" "j = i + 2"
      by (subst (asm) des_dfs.simps, auto simp: Let_def split: if_splits)+
    with True lt show ?thesis
      by (simp add: take_Suc_conv_app_nth numeral_2_eq_2 Cons_nth_drop_Suc[symmetric])
  next
    case n1: False
    show ?thesis
    proof (cases "blob ! i = 0")
      case True
      from Suc.prems lt n1 True obtain l i2 r where
        l: "des_dfs d blob (i + 1) = Inr (l, i2)" and r: "des_dfs d blob i2 = Inr (r, j)"
        and t: "t = Node None 0 (Some l) (Some r)"
        by (subst (asm) des_dfs.simps) (auto simp: Let_def split: sum.splits)
      from Suc.IH[OF l]
      have a: "full l" "zero_weights l = l" "take (i2 - (i + 1)) (drop (i + 1) blob) = enc l"
        by simp_all
      from Suc.IH[OF r]
      have b: "full r" "zero_weights r = r" "take (j - i2) (drop i2 blob) = enc r" by simp_all
      from des_dfs_bounds[OF l] des_dfs_bounds[OF r]
      have ord: "i + 1 < i2" "i2 < j" "j \<le> length blob"
        by simp_all
      have "take (j - i) (drop i blob) = blob ! i # take (j - (i + 1)) (drop (i + 1) blob)"
        using lt ord
        by (simp add: Cons_nth_drop_Suc[symmetric] take_Suc_Cons[symmetric] Suc_diff_Suc
                 del: take_Suc_Cons)
      also have "take (j - (i + 1)) (drop (i + 1) blob)
          = take (i2 - (i + 1)) (drop (i + 1) blob) @ take (j - i2) (drop i2 blob)"
      proof -
        have e: "j - (i + 1) = (i2 - (i + 1)) + (j - i2)" using ord by simp
        have d: "drop (i2 - (i + 1)) (drop (i + 1) blob) = drop i2 blob" using ord by simp
        show ?thesis unfolding e take_add d ..
      qed
      finally show ?thesis using a b t True by simp
    next
      case False
      with n1 lt Suc.prems show ?thesis
        by (subst (asm) des_dfs.simps) (simp add: Let_def)
    qed
  qed
qed

lemma des_dfs_error:
  "des_dfs d blob i = Inl e \<Longrightarrow>
     e = ValueError BadTreeRanOut \<or> e = ValueError BadTreeLeafMissing
     \<or> (\<exists>flag pos. e = ValueError (BadTreeFlag flag pos)) \<or> e = RecursionError"
proof (induction d arbitrary: i e)
  case 0
  then show ?case by (simp add: des_dfs.simps)
next
  case (Suc d)
  show ?case
  proof (cases "i < length blob \<and> blob ! i = 0")
    case True
    show ?thesis
    proof (cases "des_dfs d blob (i + 1)")
      case (Inl e1)
      with Suc.prems True have "e = e1" by (subst (asm) des_dfs.simps) (simp add: Let_def)
      with Suc.IH[OF Inl] show ?thesis by simp
    next
      case (Inr p)
      obtain l i2 where p: "p = (l, i2)" by (cases p)
      with Suc.prems True Inr have "des_dfs d blob i2 = Inl e"
        by (subst (asm) des_dfs.simps) (auto simp: Let_def split: sum.splits)
      from Suc.IH[OF this] show ?thesis .
    qed
  next
    case False
    with Suc.prems show ?thesis
      by (subst (asm) des_dfs.simps) (auto simp: Let_def split: if_splits)
  qed
qed








lemma full_internal:
  "full nd \<Longrightarrow> sym nd = None \<Longrightarrow>
     \<exists>f a b. nd = Node None f (Some a) (Some b) \<and> full a \<and> full b"
  by (cases nd rule: full.cases) (auto split: option.splits)

lemma decode_loop_total:
  "full r \<Longrightarrow> sym r = None \<Longrightarrow> full nd \<Longrightarrow> sym nd = None \<Longrightarrow>
     \<exists>res. decode_loop r bits nd i out = Inr res"
proof (induction "length bits - i" arbitrary: i nd out)
  case 0
  then show ?case by (subst decode_loop.simps) simp
next
  case (Suc n)
  from Suc(2) have lt: "i < length bits" and n: "n = length bits - (i + 1)" by simp_all
  from full_internal[OF Suc(5) Suc(6)] obtain f a b where
    nd: "nd = Node None f (Some a) (Some b)" and fa: "full a" and fb: "full b" by blast
  define c where "c = (if bits ! i = CHR ''0'' then a else b)"
  have fc: "full c" using fa fb by (simp add: c_def)
  show ?case
  proof (cases "sym c")
    case None
    from Suc(1)[OF n Suc(3) Suc(4) fc None, of out] obtain res where
      "decode_loop r bits c (i + 1) out = Inr res" by blast
    with lt None show ?thesis
      by (subst decode_loop.simps) (auto simp: nd c_def Let_def)
  next
    case (Some s)
    from Suc(1)[OF n Suc(3) Suc(4) Suc(3) Suc(4), of "out @ [s]"] obtain res where
      "decode_loop r bits r (i + 1) (out @ [s]) = Inr res" by blast
    with lt Some show ?thesis
      by (subst decode_loop.simps) (auto simp: nd c_def Let_def)
  qed
qed

lemma deserialize_error:
  "deserialize d blob = Inl e \<Longrightarrow>
     e = ValueError BadTreeRanOut \<or> e = ValueError BadTreeLeafMissing
     \<or> (\<exists>flag pos. e = ValueError (BadTreeFlag flag pos)) \<or> e = ValueError ExtraBytes
     \<or> e = RecursionError"
  by (auto simp: deserialize_def split: if_splits sum.splits dest: des_dfs_error)



lemma deserialize_enc:
  "full t \<Longrightarrow> levels t \<le> d \<Longrightarrow> deserialize d (enc t) = Inr (Some (zero_weights t))"
  using des_dfs_enc[of t d "[]" "[]"] by (simp add: deserialize_def enc_nonempty)

lemma deserialize_sound:
  assumes "deserialize d blob = Inr (Some t)"
  shows "full t \<and> zero_weights t = t \<and> blob = enc t"
proof -
  from assms have ne: "blob \<noteq> []" by (auto simp: deserialize_def split: if_splits)
  with assms have d: "des_dfs d blob 0 = Inr (t, length blob)"
    by (auto simp: deserialize_def split: sum.splits if_splits)
  from des_dfs_sound[OF d] show ?thesis by simp
qed







text \<open>
  C10. Every tree that \<open>deserialize\<close> returns for a non-empty blob is full: each internal
  node has both children. So when the root is internal, the decoder's walk returns a
  result for every bit string; no step reaches a missing child and the corrupt-bitstream
  error cannot occur.
\<close>

theorem deserialize_full_decode_total:
  "blob \<noteq> [] \<Longrightarrow> deserialize depth blob = Inr r \<Longrightarrow>
     \<exists>t. r = Some t \<and> full t
       \<and> (sym t = None \<longrightarrow> (\<forall>bits. \<exists>res. decode r bits = Inr res))"
proof -
  assume ne: "blob \<noteq> []" and d: "deserialize depth blob = Inr r"
  then obtain t where r: "r = Some t"
    by (auto simp: deserialize_def split: sum.splits if_splits)
  from deserialize_sound[OF d[unfolded r]] have f: "full t" by simp
  have "sym t = None \<longrightarrow> (\<forall>bits. \<exists>res. decode r bits = Inr res)"
    using decode_loop_total[OF f _ f] by (simp add: decode_def r)
  with r f show ?thesis by simp
qed

theorem deserialize_full_decode_total_witness:
  "[0, 1, 98, 1, 97] \<noteq> ([] :: byte list)
   \<and> deserialize call_depth [0, 1, 98, 1, 97]
       = Inr (Some (Node None 0 (Some (Node (Some 98) 0 None None))
                      (Some (Node (Some 97) 0 None None))))
   \<and> (\<forall>bits. \<exists>res. decode (Some (Node None 0 (Some (Node (Some 98) 0 None None))
                                   (Some (Node (Some 97) 0 None None)))) bits = Inr res)"
proof -
  have ne: "[0, 1, 98, 1, 97] \<noteq> ([] :: byte list)" by simp
  have d: "deserialize call_depth [0, 1, 98, 1, 97]
       = Inr (Some (Node None 0 (Some (Node (Some 98) 0 None None))
                      (Some (Node (Some 97) 0 None None))))"
    by code_simp
  from deserialize_full_decode_total[OF ne d] ne d show ?thesis by simp
qed


section \<open>Compressor and decompressor entry points\<close>

lemma read_write:
  "read_file_bytes (write_file files path bytes) q =
     (if file_of files q = file_of files path then Inr bytes else read_file_bytes files q)"
  by (simp add: read_file_bytes_def write_file_def)

lemma plain_read:
  "read_file_bytes (plain_fs m) path =
     (case m path of None \<Rightarrow> Inl FileNotFoundError | Some b \<Rightarrow> Inr b)"
  by (simp add: read_file_bytes_def plain_fs_def)

lemma plain_write: "write_file (plain_fs m) path bytes = plain_fs (m(path \<mapsto> bytes))"
  by (simp add: write_file_def plain_fs_def)

lemma plain_file_of: "file_of (plain_fs m) path = path"
  by (simp add: plain_fs_def)

lemma huff_chars:
  "\<not> py_isspace CHR ''.''" "\<not> py_isspace CHR ''f''" "py_lower ''.huff'' = ''.huff''"
  by (simp_all add: py_isspace_def py_lower_def py_lower_char_def Let_def)

lemma py_strip_suffix:
  assumes "suffix ''.huff'' src"
  shows "suffix ''.huff'' (py_lower (py_strip src))"
proof -
  from assms obtain pre where src: "src = pre @ ''.huff''" by (auto simp: suffix_def)
  have "\<exists>d. dropWhile py_isspace src = d @ ''.huff''"
    unfolding src dropWhile_append using huff_chars(1) by auto
  then obtain d where d: "dropWhile py_isspace src = d @ ''.huff''" by blast
  have "dropWhile py_isspace (rev (d @ ''.huff'')) = rev (d @ ''.huff'')"
    using huff_chars(2) by simp
  then have "py_strip src = d @ ''.huff''" by (simp add: py_strip_def d)
  then have "py_lower (py_strip src) = py_lower d @ py_lower ''.huff''"
    by (simp add: py_lower_def)
  then show ?thesis by (simp add: huff_chars(3) suffix_def)
qed

text \<open>
  C5. For every readable source whose bytes begin with the magic marker or whose name ends
  with \<open>.huff\<close>, \<open>compress_file\<close> returns with the skipped flag and the note of the
  double-compression check, and the file system is unchanged.
\<close>

theorem compress_skips_huff:
  "read_file_bytes files src = Inr raw \<Longrightarrow> prefix MAGIC raw \<or> suffix ''.huff'' src \<Longrightarrow>
     \<exists>st. compress_file files src dst = Inr (files, None, st)
          \<and> skipped st \<and> skip_note st = Some AlreadyHuff"
  using py_strip_suffix[of src]
  by (auto simp: compress_file_def Let_def)

lemma w1: "name_skipped ''data.huff''" by code_simp
lemma w2: "\<not> name_skipped ''data.txt''" by code_simp
lemma w3: "name_skipped '' Photo.JPG ''" by code_simp

lemma take4_drop4:
  "8 \<le> length raw \<Longrightarrow> take 4 (drop 4 raw) = [raw ! 4, raw ! 5, raw ! 6, raw ! 7]"
proof -
  assume l: "8 \<le> length raw"
  have "drop 4 raw = raw ! 4 # drop 5 raw" using l Cons_nth_drop_Suc[of 4 raw] by simp
  moreover have "drop 5 raw = raw ! 5 # drop 6 raw" using l Cons_nth_drop_Suc[of 5 raw] by simp
  moreover have "drop 6 raw = raw ! 6 # drop 7 raw" using l Cons_nth_drop_Suc[of 6 raw] by simp
  moreover have "drop 7 raw = raw ! 7 # drop 8 raw" using l Cons_nth_drop_Suc[of 7 raw] by simp
  ultimately show ?thesis by simp
qed

lemma unpack_declared:
  "8 \<le> length raw \<Longrightarrow> unpack_be32 (take 4 (drop 4 raw)) = Inr (declared_tree_len raw)"
  by (simp add: take4_drop4 declared_tree_len_def)

lemma parse_container_cases:
  "parse_container raw =
     (if length raw < 9 then Inl (ValueError TooSmall)
      else if take 4 raw \<noteq> MAGIC then Inl (ValueError MagicMismatch)
      else if declared_tree_len raw + 9 > length raw then Inl (ValueError TreeLenUnrealistic)
      else Inr (declared_tree_len raw, take (declared_tree_len raw) (drop 8 raw),
                unat (raw ! (8 + declared_tree_len raw)), drop (9 + declared_tree_len raw) raw))"
  by (auto simp: parse_container_def unpack_declared Let_def add.commute)

lemma decode_loop_error:
  "decode_loop r bits nd i out = Inl e \<Longrightarrow> e = ValueError CorruptBitstream"
proof (induction "length bits - i" arbitrary: i nd out)
  case 0
  then show ?case by (subst (asm) decode_loop.simps) simp
next
  case (Suc n)
  from Suc(2) have lt: "i < length bits" and n: "n = length bits - (i + 1)" by simp_all
  define c where "c = (if bits ! i = CHR ''0'' then left nd else right nd)"
  show ?case
  proof (cases c)
    case None
    with Suc(3) lt show ?thesis
      by (subst (asm) decode_loop.simps) (simp add: Let_def c_def)
  next
    case (Some nd1)
    show ?thesis
    proof (cases "sym nd1")
      case None
      with Some Suc(3) lt have "decode_loop r bits nd1 (i + 1) out = Inl e"
        by (subst (asm) decode_loop.simps) (simp add: Let_def c_def)
      from Suc(1)[OF n this] show ?thesis .
    next
      case (Some s)
      with \<open>c = Some nd1\<close> Suc(3) lt have "decode_loop r bits r (i + 1) (out @ [s]) = Inl e"
        by (subst (asm) decode_loop.simps) (simp add: Let_def c_def)
      from Suc(1)[OF n this] show ?thesis .
    qed
  qed
qed

lemma after_header_errors:
  assumes "parse_container raw = Inr parsed" and "read_file_bytes files src = Inr raw"
  shows "decompress_file files src dst \<noteq> Inl (ValueError TooSmall)
       \<and> decompress_file files src dst \<noteq> Inl (ValueError MagicMismatch)
       \<and> decompress_file files src dst \<noteq> Inl (ValueError TreeLenUnrealistic)"
  using assms
  by (auto simp: decompress_file_def unpad_bits_def decode_def Let_def
           split: sum.splits prod.splits if_splits option.splits
           dest: deserialize_error decode_loop_error)

text \<open>
  C6, amended. \<open>decompress_file\<close> fails with one of the three header errors (too small,
  magic mismatch, tree length unrealistic) exactly when the file is shorter than 9 bytes,
  or its first 4 bytes are not the magic marker, or the declared tree length plus 9
  exceeds the file length; otherwise the header stage yields the tree blob, the padding
  count and the payload at the offsets fixed by the declared tree length. Later stages can
  still fail with other \<open>ValueError\<close>s.
\<close>

theorem decompress_header_errors:
  assumes "read_file_bytes files src = Inr raw"
  shows "((decompress_file files src dst = Inl (ValueError TooSmall)
           \<or> decompress_file files src dst = Inl (ValueError MagicMismatch)
           \<or> decompress_file files src dst = Inl (ValueError TreeLenUnrealistic))
          \<longleftrightarrow> (length raw < 9 \<or> take 4 raw \<noteq> MAGIC
               \<or> declared_tree_len raw + 9 > length raw))
       \<and> (\<not> (length raw < 9 \<or> take 4 raw \<noteq> MAGIC \<or> declared_tree_len raw + 9 > length raw)
          \<longrightarrow> parse_container raw =
                Inr (declared_tree_len raw, take (declared_tree_len raw) (drop 8 raw),
                     unat (raw ! (8 + declared_tree_len raw)),
                     drop (9 + declared_tree_len raw) raw))"
proof (cases "length raw < 9 \<or> take 4 raw \<noteq> MAGIC \<or> declared_tree_len raw + 9 > length raw")
  case True
  then have "parse_container raw = Inl (ValueError TooSmall)
           \<or> parse_container raw = Inl (ValueError MagicMismatch)
           \<or> parse_container raw = Inl (ValueError TreeLenUnrealistic)"
    by (auto simp: parse_container_cases)
  then have "decompress_file files src dst = Inl (ValueError TooSmall)
           \<or> decompress_file files src dst = Inl (ValueError MagicMismatch)
           \<or> decompress_file files src dst = Inl (ValueError TreeLenUnrealistic)"
    using assms by (auto simp: decompress_file_def)
  with True show ?thesis by simp
next
  case False
  then have p: "parse_container raw =
                Inr (declared_tree_len raw, take (declared_tree_len raw) (drop 8 raw),
                     unat (raw ! (8 + declared_tree_len raw)),
                     drop (9 + declared_tree_len raw) raw)"
    by (simp add: parse_container_cases)
  from after_header_errors[of raw _ files src dst, OF p assms] False p show ?thesis by simp
qed

theorem decompress_header_errors_witness:
  "decompress_file (plain_fs [''x'' \<mapsto> [72, 85, 70, 70, 0, 0, 0, 9, 0]]) ''x'' ''y''
     = Inl (ValueError TreeLenUnrealistic)
   \<and> parse_container [72, 85, 70, 70, 0, 0, 0, 1, 2, 0] = Inr (1, [2], 0, [])"
proof -
  have a: "read_file_bytes (plain_fs [''x'' \<mapsto> [72, 85, 70, 70, 0, 0, 0, 9, 0]]) ''x''
             = Inr [72, 85, 70, 70, 0, 0, 0, 9, 0]" by (simp add: plain_read)
  have b: "read_file_bytes (plain_fs [''x'' \<mapsto> [72, 85, 70, 70, 0, 0, 0, 1, 2, 0]]) ''x''
             = Inr [72, 85, 70, 70, 0, 0, 0, 1, 2, 0]" by (simp add: plain_read)
  have c: "declared_tree_len [72, 85, 70, 70, 0, 0, 0, 9, 0] = 9"
          "declared_tree_len [72, 85, 70, 70, 0, 0, 0, 1, 2, 0] = 1"
    by (simp_all add: declared_tree_len_def)
  have d: "decompress_file (plain_fs [''x'' \<mapsto> [72, 85, 70, 70, 0, 0, 0, 9, 0]]) ''x'' ''y''
            \<noteq> Inl (ValueError TooSmall)"
          "decompress_file (plain_fs [''x'' \<mapsto> [72, 85, 70, 70, 0, 0, 0, 9, 0]]) ''x'' ''y''
            \<noteq> Inl (ValueError MagicMismatch)"
    by (simp_all add: decompress_file_def a parse_container_cases c MAGIC_def)
  from decompress_header_errors[where
      files="plain_fs [''x'' \<mapsto> [72, 85, 70, 70, 0, 0, 0, 9, 0]]"
      and src="''x''" and dst="''y''", OF a] c d
  have "decompress_file (plain_fs [''x'' \<mapsto> [72, 85, 70, 70, 0, 0, 0, 9, 0]]) ''x'' ''y''
     = Inl (ValueError TreeLenUnrealistic)" by (simp add: MAGIC_def)
  moreover from decompress_header_errors[where
      files="plain_fs [''x'' \<mapsto> [72, 85, 70, 70, 0, 0, 0, 1, 2, 0]]"
      and src="''x''" and dst="''y''", OF b] c
  have "parse_container [72, 85, 70, 70, 0, 0, 0, 1, 2, 0] = Inr (1, [2], 0, [])"
    by (simp add: MAGIC_def)
  ultimately show ?thesis by (rule conjI)
qed

lemma container_bytes_length:
  "container_bytes blob p payload = Inr c \<Longrightarrow> length c = 4 + 4 + length blob + 1 + length payload"
  by (auto simp: container_bytes_def pack_be32_def pack_u8_def MAGIC_def
           split: sum.splits if_splits)

lemma compress_file_normal_path:
  assumes "read_file_bytes files src = Inr raw"
    and "\<not> prefix MAGIC raw" and "\<not> name_skipped src"
    and "huffman_parts raw = Inr (rt, u, p, payload, blob)"
    and "container_bytes blob p payload = Inr c"
  shows "compress_file files src dst =
     (if length c \<ge> length raw then
        (if file_of files src = file_of files dst then Inl SameFileError
         else Inr (write_file files dst raw, None,
                \<lparr>c_input = src, c_output = dst, original_bytes = length raw,
                 compressed_bytes = length raw, unique_symbols = u,
                 pad_count = Some p,
                 compression_ratio = Some 1, space_saved_percent = Some 0,
                 skipped = True, skip_note = Some CannotReduce\<rparr>))
      else Inr (write_file files dst c, rt,
             \<lparr>c_input = src, c_output = dst, original_bytes = length raw,
              compressed_bytes = length c,
              unique_symbols = u, pad_count = Some p,
              compression_ratio = Some (real (length c) / real (length raw)),
              space_saved_percent =
                Some ((real (length raw) - real (length c)) / real (length raw) * 100),
              skipped = False, skip_note = None\<rparr>))"
proof -
  from assms(3) have n: "\<not> suffix ''.huff'' (py_lower (py_strip src))"
    "\<not> list_ex (\<lambda>ext. suffix ext (py_lower (py_strip src))) already_compressed_exts"
    by (simp_all add: name_skipped_def Let_def)
  have l: "length c = 9 + length blob + length payload"
    using container_bytes_length[OF assms(5)] by simp
  from assms(1) have rd: "content files (file_of files src) = Some raw"
    by (auto simp: read_file_bytes_def split: option.splits)
  have cp: "shutil_copy (write_file files dst c) src dst =
      (if file_of files src = file_of files dst then Inl SameFileError
       else Inr (write_file files dst raw))"
    using rd by (simp add: shutil_copy_def write_file_def)
  show ?thesis
    unfolding compress_file_def Let_def assms(1) sum.case
    using assms(2) n l
    by (auto simp: assms(4) assms(5) cp)
qed

lemma compress_file_parts_error:
  assumes "read_file_bytes files src = Inr raw"
    and "\<not> prefix MAGIC raw" and "\<not> name_skipped src"
    and "huffman_parts raw = Inl e"
  shows "compress_file files src dst = Inl e"
proof -
  from assms(3) have n: "\<not> suffix ''.huff'' (py_lower (py_strip src))"
    "\<not> list_ex (\<lambda>ext. suffix ext (py_lower (py_strip src))) already_compressed_exts"
    by (simp_all add: name_skipped_def Let_def)
  show ?thesis
    unfolding compress_file_def Let_def assms(1) sum.case
    using assms(2) n by (simp add: assms(4))
qed

lemma decompress_file_unfold:
  assumes "read_file_bytes files src = Inr raw"
    and "parse_container raw = Inr (tree_len, tree_blob, pad_cnt, comp_bytes)"
    and "unpad_bits comp_bytes pad_cnt = Inr bitstr"
    and "(if tree_len > 0 then deserialize call_depth tree_blob else Inr None) = Inr rt"
    and "decode rt bitstr = Inr decoded"
  shows "decompress_file files src dst =
     Inr (write_file files dst decoded,
          \<lparr>input_huff = src, d_output = dst, compressed_size = length raw,
           restored_size = length decoded, d_pad_count = pad_cnt\<rparr>)"
  using assms by (simp add: decompress_file_def)

lemma parts_empty: "huffman_parts [] = Inr (None, 0, 0, [], [])"
  by code_simp

lemma container_empty: "container_bytes [] 0 [] = Inr (MAGIC @ [0, 0, 0, 0] @ [0])"
  by (simp add: container_bytes_def pack_be32_def pack_u8_def)

lemma names: "\<not> name_skipped ''e.txt''" "\<not> name_skipped ''a.txt''" "\<not> name_skipped ''s.txt''"
  by code_simp+

lemma parts_ab: "huffman_parts [97, 98] =
       Inr (Some (Node None 2 (Some (Node (Some 97) 1 None None))
                    (Some (Node (Some 98) 1 None None))),
            2, 6, [64], [0, 1, 97, 1, 98])"
  by code_simp

lemma container_ab: "container_bytes [0, 1, 97, 1, 98] 6 [64]
     = Inr [72, 85, 70, 70, 0, 0, 0, 5, 0, 1, 97, 1, 98, 6, 64]"
  by (simp add: container_bytes_def pack_be32_def pack_u8_def MAGIC_def)

text \<open>
  C4. The two bytes \<open>ab\<close> are on the normal compression path and their container, 15
  bytes, is not shorter than the original. When source and destination are the same
  file, under one spelling of the path or two, \<open>compress_file\<close> does not return the
  skipped statistics with the original bytes kept: the copy of line 279 raises
  \<open>SameFileError\<close>, after the container of line 267 has replaced the source.
\<close>

theorem same_file_copy_fails:
  "compress_file (plain_fs [''a.txt'' \<mapsto> [97, 98]]) ''a.txt'' ''a.txt'' = Inl SameFileError
   \<and> compress_file
       \<lparr>file_of = (\<lambda>path. if path = ''./a.txt'' then ''a.txt'' else path),
        content = [''a.txt'' \<mapsto> [97, 98]]\<rparr> ''a.txt'' ''./a.txt'' = Inl SameFileError
   \<and> \<not> prefix MAGIC [97, 98] \<and> \<not> name_skipped ''a.txt''
   \<and> huffman_parts [97, 98] =
       Inr (Some (Node None 2 (Some (Node (Some 97) 1 None None))
                    (Some (Node (Some 98) 1 None None))),
            2, 6, [64], [0, 1, 97, 1, 98])
   \<and> container_bytes [0, 1, 97, 1, 98] 6 [64]
       = Inr [72, 85, 70, 70, 0, 0, 0, 5, 0, 1, 97, 1, 98, 6, 64]
   \<and> length [72, 85, 70, 70, 0, 0, 0, 5, 0, 1, 97, 1, 98, 6, 64 :: byte]
       \<ge> length [97, 98 :: byte]"
proof -
  let ?F = "\<lparr>file_of = (\<lambda>path. if path = ''./a.txt'' then ''a.txt'' else path),
        content = [''a.txt'' \<mapsto> [97, 98 :: byte]]\<rparr>"
  have a: "read_file_bytes (plain_fs [''a.txt'' \<mapsto> [97, 98]]) ''a.txt'' = Inr [97, 98]"
    by (simp add: plain_read)
  have b: "read_file_bytes ?F ''a.txt'' = Inr [97, 98]"
    by (simp add: read_file_bytes_def)
  have c: "\<not> prefix MAGIC [97, 98]" by (simp add: MAGIC_def)
  from compress_file_normal_path[where files="plain_fs [''a.txt'' \<mapsto> [97, 98]]"
      and src="''a.txt''" and dst="''a.txt''", OF a c names(2) parts_ab container_ab]
  have s: "compress_file (plain_fs [''a.txt'' \<mapsto> [97, 98]]) ''a.txt'' ''a.txt''
      = Inl SameFileError"
    by simp
  from compress_file_normal_path[where files="?F"
      and src="''a.txt''" and dst="''./a.txt''", OF b c names(2) parts_ab container_ab]
  have t: "compress_file ?F ''a.txt'' ''./a.txt'' = Inl SameFileError"
    by simp
  from s t c names(2) parts_ab container_ab show ?thesis by simp
qed

theorem compress_skips_huff_witness:
  "(\<exists>st. compress_file (plain_fs [''data.huff'' \<mapsto> [1, 2, 3]]) ''data.huff'' ''out.huff''
            = Inr (plain_fs [''data.huff'' \<mapsto> [1, 2, 3]], None, st)
          \<and> skipped st \<and> skip_note st = Some AlreadyHuff)
   \<and> (\<exists>st. compress_file (plain_fs [''c.bin'' \<mapsto> [72, 85, 70, 70, 0, 0, 0, 0, 0]])
              ''c.bin'' ''d.bin''
            = Inr (plain_fs [''c.bin'' \<mapsto> [72, 85, 70, 70, 0, 0, 0, 0, 0]], None, st)
          \<and> skipped st \<and> skip_note st = Some AlreadyHuff)"
proof -
  have a: "read_file_bytes (plain_fs [''data.huff'' \<mapsto> [1, 2, 3]]) ''data.huff''
             = Inr [1, 2, 3]" by (simp add: plain_read)
  have b: "prefix MAGIC [1, 2, 3] \<or> suffix ''.huff'' ''data.huff''"
    by (simp add: suffix_def)
  have c: "read_file_bytes (plain_fs [''c.bin'' \<mapsto> [72, 85, 70, 70, 0, 0, 0, 0, 0]]) ''c.bin''
             = Inr [72, 85, 70, 70, 0, 0, 0, 0, 0]" by (simp add: plain_read)
  have d: "prefix MAGIC [72, 85, 70, 70, 0, 0, 0, 0, 0] \<or> suffix ''.huff'' ''c.bin''"
    by (simp add: MAGIC_def)
  from compress_skips_huff[where files="plain_fs [''data.huff'' \<mapsto> [1, 2, 3]]"
      and src="''data.huff''" and dst="''out.huff''", OF a b]
    compress_skips_huff[where files="plain_fs [''c.bin'' \<mapsto> [72, 85, 70, 70, 0, 0, 0, 0, 0]]"
      and src="''c.bin''" and dst="''d.bin''", OF c d]
  show ?thesis by (rule conjI)
qed

lemma unpad_nothing: "unpad_bits [] 0 = Inr []"
  by (simp add: unpad_bits_def)

text \<open>
  C6 as stated fails: a file with a good header and a tree blob that is the single byte 2
  makes \<open>decompress_file\<close> fail with a \<open>ValueError\<close> although none of the three
  header conditions holds.
\<close>

theorem decompress_other_format_error:
  "decompress_file (plain_fs [''x'' \<mapsto> [72, 85, 70, 70, 0, 0, 0, 1, 2, 0]]) ''x'' ''y''
     = Inl (ValueError (BadTreeFlag 2 0))
   \<and> \<not> length [72, 85, 70, 70, 0, 0, 0, 1, 2, 0 :: byte] < 9
   \<and> take 4 [72, 85, 70, 70, 0, 0, 0, 1, 2, 0 :: byte] = MAGIC
   \<and> \<not> declared_tree_len [72, 85, 70, 70, 0, 0, 0, 1, 2, 0] + 9
         > length [72, 85, 70, 70, 0, 0, 0, 1, 2, 0 :: byte]"
proof -
  have a: "read_file_bytes (plain_fs [''x'' \<mapsto> [72, 85, 70, 70, 0, 0, 0, 1, 2, 0]]) ''x''
             = Inr [72, 85, 70, 70, 0, 0, 0, 1, 2, 0]" by (simp add: plain_read)
  have p: "parse_container [72, 85, 70, 70, 0, 0, 0, 1, 2, 0] = Inr (1, [2], 0, [])"
    by (simp add: parse_container_cases declared_tree_len_def MAGIC_def)
  have d: "deserialize call_depth [2] = Inl (ValueError (BadTreeFlag 2 0))" by code_simp
  have "decompress_file (plain_fs [''x'' \<mapsto> [72, 85, 70, 70, 0, 0, 0, 1, 2, 0]]) ''x'' ''y''
     = Inl (ValueError (BadTreeFlag 2 0))"
    by (simp add: decompress_file_def a p unpad_nothing d)
  then show ?thesis by (simp add: declared_tree_len_def MAGIC_def)
qed

text \<open>
  C3. Compressing a zero-byte file does not leave the container in the destination. The
  9-byte container of magic, tree length 0 and padding count 0 is assembled and written,
  but 9 is not below 0, so the would-not-shrink rule of line 278 copies the empty source
  over it and reports skipped: the destination has zero bytes, and decompressing it fails
  with the too-small error. The branch of lines 304-306 for an original of zero bytes,
  which would report the container without a ratio, is never reached.
\<close>

theorem empty_input_destination_not_container:
  "huffman_parts [] = Inr (None, 0, 0, [], [])
   \<and> container_bytes [] 0 [] = Inr [72, 85, 70, 70, 0, 0, 0, 0, 0]
   \<and> compress_file (plain_fs [''e.txt'' \<mapsto> []]) ''e.txt'' ''e.huff''
     = Inr (plain_fs [''e.txt'' \<mapsto> [], ''e.huff'' \<mapsto> []], None,
            \<lparr>c_input = ''e.txt'', c_output = ''e.huff'', original_bytes = 0,
             compressed_bytes = 0, unique_symbols = 0, pad_count = Some 0,
             compression_ratio = Some 1, space_saved_percent = Some 0,
             skipped = True, skip_note = Some CannotReduce\<rparr>)
   \<and> decompress_file (plain_fs [''e.txt'' \<mapsto> [], ''e.huff'' \<mapsto> []]) ''e.huff'' ''out''
       = Inl (ValueError TooSmall)"
proof -
  have a: "read_file_bytes (plain_fs [''e.txt'' \<mapsto> []]) ''e.txt'' = Inr []"
    by (simp add: plain_read)
  have m: "\<not> prefix MAGIC []" by (simp add: MAGIC_def)
  have ce: "container_bytes [] 0 [] = Inr [72, 85, 70, 70, 0, 0, 0, 0, 0]"
    using container_empty by (simp add: MAGIC_def)
  from compress_file_normal_path[where files="plain_fs [''e.txt'' \<mapsto> []]" and src="''e.txt''"
      and dst="''e.huff''", OF a m names(1) parts_empty ce]
  have c: "compress_file (plain_fs [''e.txt'' \<mapsto> []]) ''e.txt'' ''e.huff''
     = Inr (plain_fs [''e.txt'' \<mapsto> [], ''e.huff'' \<mapsto> []], None,
            \<lparr>c_input = ''e.txt'', c_output = ''e.huff'', original_bytes = 0,
             compressed_bytes = 0, unique_symbols = 0, pad_count = Some 0,
             compression_ratio = Some 1, space_saved_percent = Some 0,
             skipped = True, skip_note = Some CannotReduce\<rparr>)"
    by (simp add: plain_write plain_file_of)
  have d: "decompress_file (plain_fs [''e.txt'' \<mapsto> [], ''e.huff'' \<mapsto> []]) ''e.huff'' ''out''
       = Inl (ValueError TooSmall)"
    by (simp add: decompress_file_def plain_read parse_container_cases)
  from parts_empty ce c d show ?thesis by (intro conjI)
qed


section \<open>The heap keeps its items\<close>

lemma mset_shift:
  assumes "i < length xs" and "j < length xs"
  shows "mset (xs[i := xs ! j, j := v]) = mset (xs[i := v])"
proof (cases "i = j")
  case True
  then show ?thesis by simp
next
  case False
  let ?ys = "xs[i := v]"
  have "xs[i := xs ! j, j := v] = ?ys[i := ?ys ! j, j := ?ys ! i]"
    using assms False by simp
  also have "mset \<dots> = mset ?ys"
    using mset_swap[of j ?ys i] assms by simp
  finally show ?thesis .
qed

lemma siftdown_loop_mset:
  "pos < length heap \<Longrightarrow> siftdown_loop heap startpos newitem pos = (heap1, pos1) \<Longrightarrow>
     pos1 < length heap1 \<and> mset (heap1[pos1 := newitem]) = mset (heap[pos := newitem])"
proof (induction heap startpos newitem pos rule: siftdown_loop.induct)
  case (1 heap startpos newitem pos)
  show ?case
  proof (cases "pos > startpos \<and> node_lt newitem (heap ! ((pos - 1) div 2))")
    case True
    let ?pp = "(pos - 1) div 2"
    have pp: "?pp < length heap" using 1(2) by simp
    from 1(3) True have r: "siftdown_loop (heap[pos := heap ! ?pp]) startpos newitem ?pp
                      = (heap1, pos1)"
      by (subst (asm) siftdown_loop.simps) (simp add: Let_def)
    have "pos1 < length heap1
        \<and> mset (heap1[pos1 := newitem]) = mset (heap[pos := heap ! ?pp, ?pp := newitem])"
      using 1(1)[OF _ refl refl _ _ r] True pp by simp
    with mset_shift[OF 1(2) pp, of newitem] show ?thesis by simp
  next
    case False
    with 1(3) have "heap1 = heap" "pos1 = pos"
      by (subst (asm) siftdown_loop.simps, auto simp: Let_def split: if_splits)+
    with 1(2) show ?thesis by simp
  qed
qed

lemma siftdown_mset:
  assumes "pos < length heap"
  shows "mset (siftdown heap startpos pos) = mset heap"
proof -
  obtain h1 p1 where e: "siftdown_loop heap startpos (heap ! pos) pos = (h1, p1)"
    by (cases "siftdown_loop heap startpos (heap ! pos) pos") auto
  from siftdown_loop_mset[OF assms e] show ?thesis
    by (simp add: siftdown_def Let_def e)
qed

lemma siftup_loop_mset:
  "pos < length heap \<Longrightarrow> endpos \<le> length heap \<Longrightarrow>
   siftup_loop heap endpos pos = (heap1, pos1) \<Longrightarrow>
     pos1 < length heap1 \<and> mset (heap1[pos1 := newitem]) = mset (heap[pos := newitem])"
proof (induction heap endpos pos rule: siftup_loop.induct)
  case (1 heap endpos pos)
  show ?case
  proof (cases "2 * pos + 1 < endpos")
    case True
    define c where "c = (if 2 * pos + 1 + 1 < endpos
                            \<and> \<not> node_lt (heap ! (2 * pos + 1)) (heap ! (2 * pos + 1 + 1))
                         then 2 * pos + 1 + 1 else 2 * pos + 1)"
    have c: "c < length heap" using True 1(3) by (auto simp: c_def)
    have "siftup_loop heap endpos pos = siftup_loop (heap[pos := heap ! c]) endpos c"
      by (subst siftup_loop.simps, unfold Let_def c_def) (simp only: True if_True)
    with 1(4) have r: "siftup_loop (heap[pos := heap ! c]) endpos c = (heap1, pos1)"
      by simp
    have "pos1 < length heap1
        \<and> mset (heap1[pos1 := newitem]) = mset (heap[pos := heap ! c, c := newitem])"
      using 1(1)[OF refl True refl c_def _ _ r] c 1(3) by simp
    with mset_shift[OF 1(2) c, of newitem] show ?thesis by simp
  next
    case False
    with 1(4) have "heap1 = heap" "pos1 = pos"
      by (subst (asm) siftup_loop.simps, simp add: Let_def)+
    with 1(2) show ?thesis by simp
  qed
qed

lemma siftup_mset:
  assumes "pos < length heap"
  shows "mset (siftup heap pos) = mset heap"
proof -
  obtain h1 p1 where e: "siftup_loop heap (length heap) pos = (h1, p1)"
    by (cases "siftup_loop heap (length heap) pos") auto
  from siftup_loop_mset[OF assms _ e, of "heap ! pos"]
  have p: "p1 < length h1" and m: "mset (h1[p1 := heap ! pos]) = mset heap" by simp_all
  have "mset (siftdown (h1[p1 := heap ! pos]) pos p1) = mset (h1[p1 := heap ! pos])"
    by (rule siftdown_mset) (simp add: p)
  with m show ?thesis by (simp add: siftup_def Let_def e)
qed

lemma heappush_mset: "mset (heappush heap item) = add_mset item (mset heap)"
  by (simp add: heappush_def Let_def siftdown_mset)

lemma heappop_mset:
  assumes "heappop heap = Inr (x, heap1)"
  shows "mset heap = add_mset x (mset heap1)"
proof -
  from assms have ne: "heap \<noteq> []" by (auto simp: heappop_def)
  then obtain ys y where h: "heap = ys @ [y]" by (cases heap rule: rev_cases) auto
  show ?thesis
  proof (cases ys)
    case Nil
    with assms h show ?thesis by (simp add: heappop_def)
  next
    case (Cons z zs)
    with assms h have x: "x = z" and h1: "heap1 = siftup ((z # zs)[0 := y]) 0"
      by (simp_all add: heappop_def Let_def)
    have "mset heap1 = mset ((z # zs)[0 := y])"
      unfolding h1 by (rule siftup_mset) simp
    with x h Cons show ?thesis by simp
  qed
qed

lemma heappop_nonempty: "heap \<noteq> [] \<Longrightarrow> \<exists>x heap1. heappop heap = Inr (x, heap1)"
  by (simp add: heappop_def Let_def)

section \<open>Tree builder and code table\<close>

lemma freq_map_keys:
  "distinct (map fst m) \<Longrightarrow>
     distinct (map fst (foldl count_elem m data))
     \<and> set (map fst (foldl count_elem m data)) = set (map fst m) \<union> set data"
proof (induction data arbitrary: m)
  case Nil
  then show ?case by simp
next
  case (Cons b data)
  have d: "distinct (map fst (count_elem m b))"
    unfolding count_elem_def by (rule distinct_update) (rule Cons.prems)
  have s: "set (map fst (count_elem m b)) = insert b (set (map fst m))"
    unfolding count_elem_def using dom_update[of b _ m] by simp
  from Cons.IH[OF d] s show ?case by auto
qed

lemma build_freq_map_keys:
  "distinct (map fst (build_freq_map data))"
  "set (map fst (build_freq_map data)) = set data"
  using freq_map_keys[of "[]" data] by (simp_all add: build_freq_map_def)

lemma build_freq_map_length: "length (build_freq_map data) = card (set data)"
proof -
  have "length (build_freq_map data) = length (map fst (build_freq_map data))" by simp
  also have "\<dots> = card (set (map fst (build_freq_map data)))"
    using distinct_card[OF build_freq_map_keys(1)] by simp
  finally show ?thesis by (simp only: build_freq_map_keys(2))
qed

lemma heap_from_freq_mset:
  "mset (heap_from_freq fm) = mset (map (\<lambda>(s, fr). Node (Some s) fr None None) fm)"
proof (induction fm rule: rev_induct)
  case Nil
  show ?case by (simp add: heap_from_freq_def)
next
  case (snoc x fm)
  obtain s fr where x: "x = (s, fr)" by (cases x)
  from snoc show ?case
    by (simp add: heap_from_freq_def heappush_mset x)
qed

lemma heap_from_freq_length: "length (heap_from_freq fm) = length fm"
  using arg_cong[OF heap_from_freq_mset[of fm], of size] by simp

lemma heap_syms_from_freq:
  "heap_syms (mset (heap_from_freq fm)) = mset (map fst fm)"
  unfolding heap_from_freq_mset heap_syms_def
  by (induction fm) (auto simp: case_prod_beta)

lemma heap_from_freq_full:
  "t \<in># mset (heap_from_freq fm) \<Longrightarrow> full t"
  unfolding heap_from_freq_mset by auto

lemma build_loop_spec:
  "h \<noteq> [] \<Longrightarrow> \<forall>t\<in>#mset h. full t \<Longrightarrow>
     \<exists>r. build_loop h = Inr (Some r) \<and> full r
        \<and> mset (leaves r) = heap_syms (mset h)
        \<and> (length h = 1 \<longrightarrow> r \<in># mset h) \<and> (length h \<ge> 2 \<longrightarrow> sym r = None)"
proof (induction "length h" arbitrary: h rule: less_induct)
  case less
  from heappop_nonempty[OF less(2)] obtain a h1 where a: "heappop h = Inr (a, h1)" by blast
  note ma = heappop_mset[OF a] and la = heappop_length[OF a]
  show ?case
  proof (cases "length h > 1")
    case False
    with la have "length h1 = 0" by arith
    then have "h1 = []" by simp
    with ma have m: "mset h = {#a#}" by simp
    have "build_loop h = Inr (Some a)"
      using False a by (subst build_loop.simps) simp
    moreover have "full a" using less(3) m by simp
    ultimately show ?thesis using m False less(2)
      by (cases h) (auto simp: heap_syms_def)
  next
    case True
    with la have "h1 \<noteq> []" by auto
    from heappop_nonempty[OF this] obtain b h2 where b: "heappop h1 = Inr (b, h2)" by blast
    note mb = heappop_mset[OF b] and lb = heappop_length[OF b]
    let ?p = "Node None (freq a + freq b) (Some a) (Some b)"
    let ?h3 = "heappush h2 ?p"
    have m3: "mset ?h3 = add_mset ?p (mset h2)" by (rule heappush_mset)
    have l3: "length ?h3 < length h" using la lb by (simp add: heappush_length)
    have ne3: "?h3 \<noteq> []" using heappush_length[of h2 ?p] by auto
    have fa: "full a" "full b" using less(3) ma mb by simp_all
    have f3: "\<forall>t\<in>#mset ?h3. full t" using less(3) ma mb fa by (auto simp: m3)
    from less(1)[OF l3 ne3 f3] obtain r where
      r: "build_loop ?h3 = Inr (Some r)" "full r" "mset (leaves r) = heap_syms (mset ?h3)"
         "length ?h3 = 1 \<longrightarrow> r \<in># mset ?h3" "length ?h3 \<ge> 2 \<longrightarrow> sym r = None"
      by blast
    have bl: "build_loop h = build_loop ?h3"
      using True a b by (subst build_loop.simps) simp
    have sy: "heap_syms (mset ?h3) = heap_syms (mset h)"
      by (simp add: m3 ma mb heap_syms_def)
    have "sym r = None"
    proof (cases "length ?h3 = 1")
      case True
      then have "h2 = []" by (simp add: heappush_length)
      with r(4) True m3 show ?thesis by simp
    next
      case False
      with ne3 have "length ?h3 \<ge> 2" by (cases ?h3) (auto simp: Suc_le_eq)
      with r(5) show ?thesis by simp
    qed
    with r bl sy True show ?thesis by simp
  qed
qed

lemma build_tree_spec:
  assumes "fm \<noteq> []"
  shows "\<exists>t. build_tree (heap_from_freq fm) = Inr (Some t) \<and> sym t = None
        \<and> mset (leaves t) = mset (map fst fm)
        \<and> (length fm \<ge> 2 \<longrightarrow> full t)
        \<and> (length fm = 1 \<longrightarrow> t = Node None (snd (hd fm)) (Some (Node (Some (fst (hd fm))) (snd (hd fm)) None None)) None)"
proof (cases "length fm = 1")
  case True
  then obtain s fr where fm: "fm = [(s, fr)]" by (cases fm) auto
  have h: "heap_from_freq fm = [Node (Some s) fr None None]"
    using heap_from_freq_mset[of fm] by (simp add: fm)
  have "heappop [Node (Some s) fr None None] = Inr (Node (Some s) fr None None, [])"
    by (simp add: heappop_def)
  then show ?thesis by (simp add: build_tree_def h[unfolded fm] fm)
next
  case False
  with assms have l: "length fm \<ge> 2" by (cases fm) (auto simp: Suc_le_eq)
  let ?h = "heap_from_freq fm"
  have ne: "?h \<noteq> []" using l heap_from_freq_length[of fm] by auto
  from build_loop_spec[OF ne] heap_from_freq_full obtain r where
    r: "build_loop ?h = Inr (Some r)" "full r" "mset (leaves r) = heap_syms (mset ?h)"
       "length ?h \<ge> 2 \<longrightarrow> sym r = None"
    by blast
  have "build_tree ?h = build_loop ?h"
    using ne l by (simp add: build_tree_def heap_from_freq_length)
  with r l False show ?thesis
    by (simp add: heap_syms_from_freq heap_from_freq_length)
qed

lemma map_fst_paths: "map fst (paths t) = leaves t"
  by (induction t rule: leaves.induct) (auto simp: comp_def case_prod_beta split: option.splits)

lemma set_leaves_paths: "set (leaves t) = fst ` set (paths t)"
  using arg_cong[OF map_fst_paths[of t], of set] by simp

lemma map_of_paths_cons:
  "map_of (map (\<lambda>(s, p). (s, c # p)) xs) s = map_option ((#) c) (map_of xs s)"
  by (induction xs) auto

lemma map_of_paths_None: "s \<notin> set (leaves t) \<Longrightarrow> map_of (paths t) s = None"
  by (simp add: set_leaves_paths map_of_eq_None_iff)

lemma map_of_paths_Some: "s \<in> set (leaves t) \<Longrightarrow> \<exists>p. map_of (paths t) s = Some p"
proof -
  assume "s \<in> set (leaves t)"
  then have "map_of (paths t) s \<noteq> None" by (simp add: set_leaves_paths map_of_eq_None_iff)
  then show ?thesis by auto
qed

lemma walk_paths:
  "distinct (leaves t) \<Longrightarrow>
     walk t pfx codes s =
       (case map_of (paths t) s of
          Some p \<Rightarrow> Some (nonempty_code (pfx @ p))
        | None \<Rightarrow> codes s)"
proof (induction t arbitrary: pfx codes rule: leaves.induct)
  case (1 x f l r)
  show ?case by (simp add: nonempty_code_def)
next
  case (2 f l r)
  show ?case
  proof (cases l)
    case lN: None
    show ?thesis
    proof (cases r)
      case None
      with lN show ?thesis by simp
    next
      case (Some b)
      from 2(3) lN Some have "distinct (leaves b)" by simp
      from 2(2)[OF Some this] lN Some show ?thesis
        by (simp add: map_of_paths_cons split: option.splits)
    qed
  next
    case lS: (Some a)
    from 2(3) lS have da: "distinct (leaves a)" by (simp split: option.splits)
    note iha = 2(1)[OF lS da]
    show ?thesis
    proof (cases r)
      case None
      with lS iha show ?thesis
        by (simp add: map_of_paths_cons split: option.splits)
    next
      case (Some b)
      from 2(3) lS Some have db: "distinct (leaves b)"
        and dj: "set (leaves a) \<inter> set (leaves b) = {}" by simp_all
      note ihb = 2(2)[OF Some db]
      show ?thesis
      proof (cases "s \<in> set (leaves a)")
        case True
        with dj have nb: "s \<notin> set (leaves b)" by auto
        from map_of_paths_Some[OF True] obtain p where p: "map_of (paths a) s = Some p" by blast
        show ?thesis
          using lS Some iha ihb p map_of_paths_None[OF nb]
          by (simp add: map_of_paths_cons map_add_def)
      next
        case False
        show ?thesis
          using lS Some iha ihb map_of_paths_None[OF False]
          by (simp add: map_of_paths_cons map_add_def split: option.splits)
      qed
    qed
  qed
qed

lemma paths_prefix_same:
  "(s, p) \<in> set (paths t) \<Longrightarrow> (s', p') \<in> set (paths t) \<Longrightarrow> prefix p p' \<Longrightarrow> s = s'"
proof (induction t arbitrary: p p' rule: leaves.induct)
  case (1 x f l r)
  then show ?case by simp
next
  case (2 f l r)
  from 2(3) consider
    (L) a q where "l = Some a" "p = CHR ''0'' # q" "(s, q) \<in> set (paths a)"
  | (R) b q where "r = Some b" "p = CHR ''1'' # q" "(s, q) \<in> set (paths b)"
    by (auto split: option.splits)
  then show ?case
  proof cases
    case L
    with 2(4,5) obtain q' where "p' = CHR ''0'' # q'" "(s', q') \<in> set (paths a)" "prefix q q'"
      by (auto split: option.splits)
    with 2(1)[OF L(1) L(3)] show ?thesis by blast
  next
    case R
    with 2(4,5) obtain q' where "p' = CHR ''1'' # q'" "(s', q') \<in> set (paths b)" "prefix q q'"
      by (auto split: option.splits)
    with 2(2)[OF R(1) R(3)] show ?thesis by blast
  qed
qed

lemma paths_nonempty: "sym t = None \<Longrightarrow> (s, p) \<in> set (paths t) \<Longrightarrow> p \<noteq> []"
  by (cases t rule: leaves.cases) (auto split: option.splits)

lemma paths_bits: "(s, p) \<in> set (paths t) \<Longrightarrow> set p \<subseteq> {CHR ''0'', CHR ''1''}"
proof (induction t arbitrary: p rule: leaves.induct)
  case (1 x f l r)
  then show ?case by simp
next
  case (2 f l r)
  from 2(3) consider
    (L) a q where "l = Some a" "p = CHR ''0'' # q" "(s, q) \<in> set (paths a)"
  | (R) b q where "r = Some b" "p = CHR ''1'' # q" "(s, q) \<in> set (paths b)"
    by (auto split: option.splits)
  then show ?case
  proof cases
    case L
    with 2(1)[OF L(1) L(3)] show ?thesis by auto
  next
    case R
    with 2(2)[OF R(1) R(3)] show ?thesis by auto
  qed
qed

lemma make_codes_paths:
  assumes "sym t = None" and "distinct (leaves t)"
  shows "make_codes (Some t) s = map_of (paths t) s"
proof (cases "map_of (paths t) s")
  case None
  then show ?thesis using walk_paths[OF assms(2), of "[]" Map.empty s]
    by (simp add: make_codes_def)
next
  case (Some p)
  then have "(s, p) \<in> set (paths t)" by (rule map_of_SomeD)
  from paths_nonempty[OF assms(1) this] Some show ?thesis
    using walk_paths[OF assms(2), of "[]" Map.empty s]
    by (simp add: make_codes_def nonempty_code_def)
qed

lemma built_codes:
  assumes "sym t = None" and "mset (leaves t) = mset ks" and "distinct ks"
  shows "dom (make_codes (Some t)) = set ks"
    and "make_codes (Some t) s = Some c \<Longrightarrow>
           c \<noteq> [] \<and> set c \<subseteq> {CHR ''0'', CHR ''1''} \<and> (s, c) \<in> set (paths t)
           \<and> (\<forall>s' c'. make_codes (Some t) s' = Some c' \<longrightarrow> s' \<noteq> s \<longrightarrow> \<not> prefix c c')"
proof -
  from assms(2,3) have d: "distinct (leaves t)"
    using mset_eq_imp_distinct_iff by blast
  from assms(2) have st: "set (leaves t) = set ks" by (rule mset_eq_setD)
  note mc = make_codes_paths[OF assms(1) d]
  have "make_codes (Some t) = map_of (paths t)" by (rule ext) (rule mc)
  then have "dom (make_codes (Some t)) = fst ` set (paths t)"
    by (simp add: dom_map_of_conv_image_fst)
  then show "dom (make_codes (Some t)) = set ks"
    by (simp add: set_leaves_paths[symmetric] st)
  assume "make_codes (Some t) s = Some c"
  then have i: "(s, c) \<in> set (paths t)" by (simp add: mc map_of_SomeD)
  have "\<not> prefix c c'" if "make_codes (Some t) s' = Some c'" "s' \<noteq> s" for s' c'
  proof
    assume "prefix c c'"
    from that(1) have "(s', c') \<in> set (paths t)" by (simp add: mc map_of_SomeD)
    from paths_prefix_same[OF i this \<open>prefix c c'\<close>] that(2) show False by simp
  qed
  with i paths_nonempty[OF assms(1) i] paths_bits[OF i]
  show "c \<noteq> [] \<and> set c \<subseteq> {CHR ''0'', CHR ''1''} \<and> (s, c) \<in> set (paths t)
           \<and> (\<forall>s' c'. make_codes (Some t) s' = Some c' \<longrightarrow> s' \<noteq> s \<longrightarrow> \<not> prefix c c')"
    by blast
qed

text \<open>
  C9. For every frequency table (a dict, so its keys are distinct) the tree builder
  returns a tree, and the code table made from it maps exactly the symbols of the table,
  each to a non-empty string of the characters \<open>0\<close> and \<open>1\<close>, and no symbol's code is a
  prefix of the code of a different symbol.
\<close>

theorem codes_prefix_free:
  assumes "distinct (map fst freq_map)"
  shows "\<exists>r. build_tree (heap_from_freq freq_map) = Inr r
           \<and> dom (make_codes r) = set (map fst freq_map)
           \<and> (\<forall>s c. make_codes r s = Some c \<longrightarrow>
                 c \<noteq> [] \<and> set c \<subseteq> {CHR ''0'', CHR ''1''}
                 \<and> (\<forall>s' c'. make_codes r s' = Some c' \<longrightarrow> s' \<noteq> s \<longrightarrow> \<not> prefix c c'))"
proof (cases "freq_map = []")
  case True
  then show ?thesis
    by (simp add: heap_from_freq_def build_tree_def make_codes_def)
next
  case False
  from build_tree_spec[OF False] obtain t where
    t: "build_tree (heap_from_freq freq_map) = Inr (Some t)" "sym t = None"
       "mset (leaves t) = mset (map fst freq_map)"
    by blast
  from built_codes[OF t(2,3) assms] t(1) show ?thesis by blast
qed

theorem codes_prefix_free_witness:
  "distinct (map fst [(97 :: byte, 3 :: int), (98, 1)])
   \<and> (\<exists>r. build_tree (heap_from_freq [(97, 3), (98, 1)]) = Inr r
           \<and> dom (make_codes r) = set (map fst [(97 :: byte, 3 :: int), (98, 1)])
           \<and> (\<forall>s c. make_codes r s = Some c \<longrightarrow>
                 c \<noteq> [] \<and> set c \<subseteq> {CHR ''0'', CHR ''1''}
                 \<and> (\<forall>s' c'. make_codes r s' = Some c' \<longrightarrow> s' \<noteq> s \<longrightarrow> \<not> prefix c c')))"
proof -
  have h: "distinct (map fst [(97 :: byte, 3 :: int), (98, 1)])" by simp
  show ?thesis by (rule conjI[OF h codes_prefix_free[OF h]])
qed


section \<open>Bit packing round trip\<close>

lemma encode_bytes_concat:
  "\<forall>b\<in>set data. codes b \<noteq> None \<Longrightarrow>
     encode_bytes data codes = Inr (concat (map (\<lambda>b. the (codes b)) data))"
  by (induction data) auto

lemma bin_value_foldl:
  "is_bits s \<Longrightarrow>
     bin_value s acc = Inr (foldl (\<lambda>a c. 2 * a + (if c = CHR ''1'' then 1 else 0)) acc s)"
  by (induction s arbitrary: acc) (auto simp: is_bits_def)

lemma int_base2_bits: "is_bits s \<Longrightarrow> s \<noteq> [] \<Longrightarrow> int_base2 s = Inr (bit_value s)"
  by (simp add: int_base2_def bin_value_foldl bit_value_def)

lemma bit_value_snoc:
  "bit_value (s @ [c]) = 2 * bit_value s + (if c = CHR ''1'' then 1 else 0)"
  by (simp add: bit_value_def)

lemma bit_value_bound: "bit_value s < 2 ^ length s"
proof (induction s rule: rev_induct)
  case Nil
  show ?case by (simp add: bit_value_def)
next
  case (snoc c s)
  then show ?case by (simp add: bit_value_snoc)
qed

lemma digits_Suc:
  "digits (Suc k) n = digits k (n div 2) @ [if n mod 2 = 1 then CHR ''1'' else CHR ''0'']"
proof -
  have "map (\<lambda>i. if (n div 2 ^ i) mod 2 = 1 then CHR ''1'' else CHR ''0'') [0..<Suc k]
      = (if n mod 2 = 1 then CHR ''1'' else CHR ''0'')
        # map (\<lambda>i. if ((n div 2) div 2 ^ i) mod 2 = 1 then CHR ''1'' else CHR ''0'') [0..<k]"
    by (simp only: map_upt_Suc) (simp add: div_mult2_eq)
  then show ?thesis
    unfolding digits_def rev_map[symmetric] by simp
qed

lemma digits_bit_value: "is_bits s \<Longrightarrow> digits (length s) (bit_value s) = s"
proof (induction s rule: rev_induct)
  case Nil
  show ?case by (simp add: digits_def)
next
  case (snoc c s)
  then have b: "is_bits s" and c: "c = CHR ''0'' \<or> c = CHR ''1''"
    by (auto simp: is_bits_def)
  from snoc.IH[OF b] c show ?case
    by (auto simp: digits_Suc bit_value_snoc)
qed

lemma format_08b_digits: "format_08b x = digits 8 (unat x)"
  by (simp add: format_08b_def digits_def)

lemma byte_roundtrip:
  assumes "is_bits s" and "length s = 8"
  shows "int_base2 s = Inr (bit_value s)" and "bit_value s \<le> 255"
    and "format_08b (of_nat (bit_value s)) = s"
proof -
  from assms(2) have ne: "s \<noteq> []" by auto
  show "int_base2 s = Inr (bit_value s)" by (rule int_base2_bits[OF assms(1) ne])
  from bit_value_bound[of s] assms(2) have lt: "bit_value s < 256" by simp
  then show "bit_value s \<le> 255" by simp
  from lt have "unat (of_nat (bit_value s) :: byte) = bit_value s"
    by (simp add: unat_of_nat)
  with digits_bit_value[OF assms(1)] assms(2)
  show "format_08b (of_nat (bit_value s)) = s" by (simp add: format_08b_digits)
qed

lemma is_bits_take_drop: "is_bits s \<Longrightarrow> is_bits (take n s) \<and> is_bits (drop n s)"
  unfolding is_bits_def using set_take_subset[of n s] set_drop_subset[of n s] by blast

lemma bits_to_bytes_roundtrip:
  "is_bits s \<Longrightarrow> 8 dvd length s \<Longrightarrow>
     \<exists>bs. bits_to_bytes s = Inr bs \<and> bytes_to_bits bs = s \<and> (bs = [] \<longleftrightarrow> s = [])"
proof (induction "length s" arbitrary: s rule: less_induct)
  case less
  show ?case
  proof (cases "s = []")
    case True
    then show ?thesis
      by (subst bits_to_bytes.simps) (simp add: bytes_to_bits_def)
  next
    case False
    then have "0 < length s" by simp
    with less(3) have l8: "length s \<ge> 8" by (rule dvd_imp_le)
    then have lt: "length (take 8 s) = 8" by simp
    note td = is_bits_take_drop[OF less(2), of 8]
    note br = byte_roundtrip[OF conjunct1[OF td] lt]
    have dd: "8 dvd length (drop 8 s)" using less(3) l8 by (simp add: dvd_diff_nat)
    have "length (drop 8 s) < length s" using l8 by simp
    from less(1)[OF this conjunct2[OF td] dd] obtain bs where
      bs: "bits_to_bytes (drop 8 s) = Inr bs" "bytes_to_bits bs = drop 8 s" by blast
    have "bits_to_bytes s = Inr (of_nat (bit_value (take 8 s)) # bs)"
      using False br(1,2) bs(1) by (subst bits_to_bytes.simps) simp
    moreover have "bytes_to_bits (of_nat (bit_value (take 8 s)) # bs) = take 8 s @ drop 8 s"
      using br(3) bs(2) by (simp add: bytes_to_bits_def)
    ultimately show ?thesis using False by simp
  qed
qed

lemma pad_amount:
  fixes n :: nat
  shows "(8 - n mod 8) mod 8 \<le> 7" and "8 dvd n + (8 - n mod 8) mod 8"
proof -
  have "(8 - n mod 8) mod 8 < 8" by simp
  then show "(8 - n mod 8) mod 8 \<le> 7" by simp
  show "8 dvd n + (8 - n mod 8) mod 8"
  proof (cases "n mod 8 = 0")
    case True
    then show ?thesis by (simp add: dvd_eq_mod_eq_0)
  next
    case False
    have lt: "n mod 8 < 8" by simp
    with False have e: "(8 - n mod 8) mod 8 = 8 - n mod 8" by simp
    have "n = 8 * (n div 8) + n mod 8" by simp
    then have "n + (8 - n mod 8) = 8 * (n div 8) + 8"
      using lt by linarith
    then show ?thesis unfolding e by simp
  qed
qed

lemma pad_bits_props:
  assumes "is_bits s" and "pad_bits s = (padded, extra)"
  shows "is_bits padded" and "8 dvd length padded" and "extra \<le> 7"
    and "padded = s @ replicate extra (CHR ''0'')" and "s = [] \<Longrightarrow> extra = 0"
proof -
  from assms(2) have p: "padded = s @ replicate extra (CHR ''0'')"
    and e: "extra = (if s = [] then 0 else (8 - length s mod 8) mod 8)"
    by (auto simp: pad_bits_def Let_def split: if_splits)
  show "padded = s @ replicate extra (CHR ''0'')" by (rule p)
  show "is_bits padded" using assms(1) by (auto simp: p is_bits_def)
  show "extra \<le> 7" using pad_amount(1)[of "length s"] by (simp add: e)
  show "s = [] \<Longrightarrow> extra = 0" using e by simp
  show "8 dvd length padded" using pad_amount(2)[of "length s"] by (simp add: p e)
qed

lemma unpad_after_pack:
  assumes "is_bits s" and "pad_bits s = (padded, extra)"
    and "bits_to_bytes padded = Inr payload"
  shows "unpad_bits payload extra = Inr s"
proof -
  note pp = pad_bits_props[OF assms(1,2)]
  from bits_to_bytes_roundtrip[OF pp(1,2)] assms(3)
  have r: "bytes_to_bits payload = padded" "payload = [] \<longleftrightarrow> padded = []" by auto
  show ?thesis
  proof (cases "s = []")
    case True
    with pp(4,5) have "padded = []" "extra = 0" by simp_all
    with r True show ?thesis by (simp add: unpad_bits_def)
  next
    case False
    with pp(4) r have "payload \<noteq> []" by simp
    with r(1) pp(4) show ?thesis by (simp add: unpad_bits_def Let_def)
  qed
qed

section \<open>Decoding and the container round trip\<close>

lemma decode_loop_walk_bits:
  "i \<le> length bits \<Longrightarrow> decode_loop r bits nd i out = walk_bits r nd (drop i bits) out"
proof (induction "length bits - i" arbitrary: i nd out)
  case 0
  then show ?case by (subst decode_loop.simps) simp
next
  case (Suc n)
  from Suc(2) have lt: "i < length bits" and n: "n = length bits - (i + 1)"
    and le: "i + 1 \<le> length bits" by simp_all
  have d: "drop i bits = bits ! i # drop (i + 1) bits"
    using lt by (simp add: Cons_nth_drop_Suc)
  show ?case
    using lt Suc(1)[OF n le]
    by (subst decode_loop.simps) (simp add: d Let_def split: option.splits)
qed

lemma paths_leaf: "sym t = Some s \<Longrightarrow> paths t = [(s, [])]"
  by (cases t rule: leaves.cases) auto

lemma walk_bits_path:
  "(s, p) \<in> set (paths t) \<Longrightarrow> sym t = None \<Longrightarrow>
     walk_bits r t (p @ rest) out = walk_bits r r rest (out @ [s])"
proof (induction t arbitrary: p rule: leaves.induct)
  case (1 x f l r)
  then show ?case by simp
next
  case (2 f l rr)
  from 2(3) consider
    (L) a q where "l = Some a" "p = CHR ''0'' # q" "(s, q) \<in> set (paths a)"
  | (R) b q where "rr = Some b" "p = CHR ''1'' # q" "(s, q) \<in> set (paths b)"
    by (auto split: option.splits)
  then show ?case
  proof cases
    case L
    show ?thesis
    proof (cases "sym a")
      case None
      with 2(1)[OF L(1) L(3) None] L show ?thesis by simp
    next
      case (Some s')
      with L(3) paths_leaf[OF Some] have "q = []" "s' = s" by simp_all
      with L Some show ?thesis by simp
    qed
  next
    case R
    show ?thesis
    proof (cases "sym b")
      case None
      with 2(2)[OF R(1) R(3) None] R show ?thesis by simp
    next
      case (Some s')
      with R(3) paths_leaf[OF Some] have "q = []" "s' = s" by simp_all
      with R Some show ?thesis by simp
    qed
  qed
qed

lemma walk_bits_concat:
  "sym t = None \<Longrightarrow> \<forall>b\<in>set data. (b, code b) \<in> set (paths t) \<Longrightarrow>
     walk_bits t t (concat (map code data)) out = Inr (out @ data)"
proof (induction data arbitrary: out)
  case Nil
  show ?case by simp
next
  case (Cons b data)
  from Cons.prems have "(b, code b) \<in> set (paths t)" by simp
  from walk_bits_path[OF this Cons.prems(1), of t "concat (map code data)" out]
    Cons.IH[OF Cons.prems(1), of "out @ [b]"] Cons.prems(2)
  show ?case by simp
qed

lemma zero_weights_sym: "sym (zero_weights t) = sym t"
  by (cases t) simp

lemma zero_weights_paths: "paths (zero_weights t) = paths t"
  by (induction t rule: leaves.induct) (auto split: option.splits)

lemma enc_length: "full t \<Longrightarrow> Suc (length (enc t)) = 3 * length (leaves t)"
  by (induction t rule: leaves.induct) (auto split: option.splits)

lemma distinct_bytes_length:
  fixes xs :: "byte list"
  assumes "distinct xs"
  shows "length xs \<le> 256"
proof -
  have "length xs = card (set xs)" using distinct_card[OF assms] by simp
  also have "\<dots> \<le> card (UNIV :: byte set)" by (rule card_mono) simp_all
  also have "\<dots> = 256" by (simp add: card_word)
  finally show ?thesis .
qed

lemma levels_le_leaves: "full t \<Longrightarrow> 1 \<le> levels t \<and> levels t \<le> length (leaves t)"
proof (induction t rule: full.induct)
  case (1 s f l r)
  then show ?case by simp
next
  case (2 f l r)
  then obtain a b where l: "l = Some a" and r: "r = Some b" and fa: "full a" and fb: "full b"
    by (auto split: option.splits)
  from 2(1)[OF l fa] 2(2)[OF r fb] show ?case by (auto simp: l r max_def)
qed

lemma built_tree_levels:
  assumes "full t" and "distinct (leaves t)"
  shows "levels t \<le> call_depth"
proof -
  from levels_le_leaves[OF assms(1)] distinct_bytes_length[OF assms(2)]
  have "levels t \<le> 256" by simp
  then show ?thesis by (simp add: call_depth_def recursion_limit_def)
qed

lemma be32_value:
  fixes n :: nat
  assumes "n < 65536"
  shows "unat (of_nat (n div 2 ^ 24) :: byte) * 2 ^ 24 + unat (of_nat (n div 2 ^ 16) :: byte) * 2 ^ 16
       + unat (of_nat (n div 2 ^ 8) :: byte) * 2 ^ 8 + unat (of_nat n :: byte) = n"
proof -
  from assms have a: "n div 2 ^ 24 = 0" "n div 2 ^ 16 = 0" by simp_all
  from assms have "n div 256 < 256" by simp
  then have b: "unat (of_nat (n div 2 ^ 8) :: byte) = n div 256"
    by (simp add: unat_of_nat)
  have c: "unat (of_nat n :: byte) = n mod 256" by (simp add: unat_of_nat)
  show ?thesis unfolding a b c by simp
qed

lemma parse_assembled:
  assumes "container_bytes blob p payload = Inr c" and "length blob < 65536"
  shows "parse_container c = Inr (length blob, blob, p, payload)"
proof -
  from assms(1) have p: "p \<le> 255"
    and c: "c = MAGIC @ [of_nat (length blob div 2 ^ 24), of_nat (length blob div 2 ^ 16),
                         of_nat (length blob div 2 ^ 8), of_nat (length blob)]
                @ blob @ [of_nat p] @ payload"
    by (auto simp: container_bytes_def pack_be32_def pack_u8_def split: if_splits)
  have d: "declared_tree_len c = length blob"
    using be32_value[OF assms(2)] by (simp add: c declared_tree_len_def MAGIC_def)
  have u: "unat (of_nat p :: byte) = p" using p by (simp add: unat_of_nat)
  define hdr where "hdr = MAGIC @ [of_nat (length blob div 2 ^ 24),
        of_nat (length blob div 2 ^ 16), of_nat (length blob div 2 ^ 8),
        of_nat (length blob) :: byte]"
  have h: "length hdr = 8" "take 4 hdr = MAGIC" by (simp_all add: hdr_def MAGIC_def)
  have c2: "c = hdr @ blob @ of_nat p # payload" by (simp add: c hdr_def)
  have l: "length c = 9 + length blob + length payload" by (simp add: c2 h)
  have t4: "take 4 c = MAGIC" using h by (simp add: c2)
  have tb: "take (length blob) (drop 8 c) = blob" using h by (simp add: c2)
  have pb: "c ! (8 + length blob) = of_nat p"
    using h nth_append_length[of "hdr @ blob" "of_nat p" payload] by (simp add: c2)
  have "drop (length (hdr @ blob @ [of_nat p])) ((hdr @ blob @ [of_nat p]) @ payload) = payload"
    by (rule append_eq_conv_conj[THEN iffD1, THEN conjunct2, symmetric]) (rule refl)
  then have dp: "drop (9 + length blob) c = payload" using h by (simp add: c2)
  show ?thesis
    unfolding parse_container_cases d by (simp add: l t4 tb pb dp u)
qed

lemma huffman_parts_multi:
  assumes "2 \<le> card (set data)"
  shows "\<exists>t p payload bitstr.
           huffman_parts data = Inr (Some t, card (set data), p, payload, enc t)
         \<and> full t \<and> sym t = None \<and> length (enc t) < 65536 \<and> p \<le> 7
         \<and> levels t \<le> call_depth
         \<and> unpad_bits payload p = Inr bitstr
         \<and> walk_bits (zero_weights t) (zero_weights t) bitstr [] = Inr data"
proof -
  let ?fm = "build_freq_map data"
  have len: "length ?fm = card (set data)" by (rule build_freq_map_length)
  with assms have ne: "?fm \<noteq> []" and l2: "length ?fm \<ge> 2" by auto
  from build_tree_spec[OF ne] l2 obtain t where
    t: "build_tree (heap_from_freq ?fm) = Inr (Some t)" "sym t = None"
       "mset (leaves t) = mset (map fst ?fm)" "full t"
    by blast
  note keys = build_freq_map_keys[of data]
  define codes where "codes = make_codes (Some t)"
  have dom: "dom codes = set data"
    unfolding codes_def using built_codes(1)[OF t(2,3) keys(1)] keys(2) by simp
  have code: "c \<noteq> [] \<and> set c \<subseteq> {CHR ''0'', CHR ''1''} \<and> (s, c) \<in> set (paths t)"
    if "codes s = Some c" for s c
    using built_codes(2)[OF t(2,3) keys(1), of s c] that by (simp add: codes_def)
  have each: "\<forall>b\<in>set data. codes b \<noteq> None" using dom by auto
  define bitstr where "bitstr = concat (map (\<lambda>b. the (codes b)) data)"
  have enc: "encode_bytes data codes = Inr bitstr"
    unfolding bitstr_def by (rule encode_bytes_concat[OF each])
  have inpaths: "\<forall>b\<in>set data. (b, the (codes b)) \<in> set (paths t)"
    using each code by fastforce
  have bits: "is_bits bitstr"
    unfolding is_bits_def bitstr_def using each code by fastforce
  obtain padded extra where pad: "pad_bits bitstr = (padded, extra)"
    by (cases "pad_bits bitstr")
  note pp = pad_bits_props[OF bits pad]
  from bits_to_bytes_roundtrip[OF pp(1,2)] obtain payload where
    payload: "bits_to_bytes padded = Inr payload" by blast
  have dl: "distinct (leaves t)"
    using t(3) keys(1) mset_eq_imp_distinct_iff by blast
  note lv = built_tree_levels[OF t(4) dl]
  have ser: "serialize call_depth (Some t) = Inr (enc t)"
    by (simp add: serialize_def ser_dfs_full[OF t(4) lv])
  have hp: "huffman_parts data = Inr (Some t, card (set data), extra, payload, enc t)"
    by (simp add: huffman_parts_def Let_def t(1) codes_def[symmetric] enc pad payload ser len)
  have un: "unpad_bits payload extra = Inr bitstr"
    by (rule unpad_after_pack[OF bits pad payload])
  have wb: "walk_bits (zero_weights t) (zero_weights t) bitstr [] = Inr data"
    unfolding bitstr_def
    using walk_bits_concat[of "zero_weights t" data "\<lambda>b. the (codes b)" "[]"] t(2) inpaths
    by (simp add: zero_weights_sym zero_weights_paths)
  from distinct_bytes_length[OF dl] enc_length[OF t(4)]
  have el: "length (enc t) < 65536" by simp
  from hp t(2,4) el pp(3) lv un wb show ?thesis by blast
qed

text \<open>
  C1, amended. For every byte sequence with at least two distinct byte values whose
  source does not begin with the magic marker and is not skipped by its name, the
  compressor assembles a container; when that container is strictly shorter than the
  input, \<open>compress_file\<close> writes it to the destination with the skipped flag unset, and
  decompressing that destination restores exactly the input.
\<close>

theorem compress_decompress_roundtrip:
  assumes "read_file_bytes files src = Inr data" and "2 \<le> card (set data)"
    and "\<not> prefix MAGIC data" and "\<not> name_skipped src"
  shows "\<exists>rt u p payload blob c.
           huffman_parts data = Inr (rt, u, p, payload, blob)
         \<and> container_bytes blob p payload = Inr c
         \<and> (length c < length data \<longrightarrow>
              (\<exists>st. compress_file files src dst = Inr (write_file files dst c, rt, st)
                    \<and> \<not> skipped st)
            \<and> (\<exists>st2. decompress_file (write_file files dst c) dst out
                      = Inr (write_file (write_file files dst c) out data, st2)))"
proof -
  from huffman_parts_multi[OF assms(2)] obtain t p payload bitstr where
    hp: "huffman_parts data = Inr (Some t, card (set data), p, payload, enc t)"
    and t: "full t" "sym t = None" "length (enc t) < 65536" "p \<le> 7" "levels t \<le> call_depth"
    and un: "unpad_bits payload p = Inr bitstr"
    and wb: "walk_bits (zero_weights t) (zero_weights t) bitstr [] = Inr data"
    by blast
  obtain c where c: "container_bytes (enc t) p payload = Inr c"
    using t(3,4) by (simp add: container_bytes_def pack_be32_def pack_u8_def)
  have comp: "\<exists>st. compress_file files src dst = Inr (write_file files dst c, Some t, st)
                    \<and> \<not> skipped st" if "length c < length data"
    using compress_file_normal_path[where files=files and src=src and dst=dst,
            OF assms(1,3,4) hp c] that by simp
  have rd: "read_file_bytes (write_file files dst c) dst = Inr c" by (simp add: read_write)
  have ds: "(if length (enc t) > 0 then deserialize call_depth (enc t) else Inr None)
              = Inr (Some (zero_weights t))"
    using enc_nonempty[of t] by (simp add: deserialize_enc[OF t(1) t(5)])
  have dc: "decode (Some (zero_weights t)) bitstr = Inr data"
    using decode_loop_walk_bits[of 0 bitstr "zero_weights t" "zero_weights t" "[]"] wb
    by (simp add: decode_def)
  have dec: "\<exists>st2. decompress_file (write_file files dst c) dst out
                      = Inr (write_file (write_file files dst c) out data, st2)"
    using decompress_file_unfold[where files="write_file files dst c" and src=dst and dst=out,
            OF rd parse_assembled[OF c t(3)] un ds dc]
    by blast
  from hp c comp dec show ?thesis by blast
qed

lemma parts_long:
  "huffman_parts ([97, 97, 97, 97, 97, 97, 97, 97, 97, 97, 97, 97, 97, 97, 97, 97, 97, 98]) =
     Inr (Some (Node None 18 (Some (Node (Some 98) 1 None None))
                  (Some (Node (Some 97) 17 None None))),
          2, 6, [255, 255, 128], [0, 1, 98, 1, 97])"
  by code_simp

lemma container_long:
  "container_bytes [0, 1, 98, 1, 97] 6 [255, 255, 128]
     = Inr [72, 85, 70, 70, 0, 0, 0, 5, 0, 1, 98, 1, 97, 6, 255, 255, 128]"
  by (simp add: container_bytes_def pack_be32_def pack_u8_def MAGIC_def)

lemma name_long: "\<not> name_skipped ''l.txt''"
  by code_simp

theorem compress_decompress_roundtrip_witness:
  "(\<exists>st. compress_file (plain_fs [''l.txt'' \<mapsto> [97, 97, 97, 97, 97, 97, 97, 97, 97, 97, 97, 97, 97, 97, 97, 97, 97, 98]]) ''l.txt'' ''l.huff''
           = Inr (plain_fs [''l.txt'' \<mapsto> [97, 97, 97, 97, 97, 97, 97, 97, 97, 97, 97, 97, 97, 97, 97, 97, 97, 98],
                   ''l.huff'' \<mapsto> [72, 85, 70, 70, 0, 0, 0, 5, 0, 1, 98, 1, 97, 6, 255, 255, 128]],
                  Some (Node None 18 (Some (Node (Some 98) 1 None None))
                          (Some (Node (Some 97) 17 None None))), st)
         \<and> \<not> skipped st)
   \<and> (\<exists>st2. decompress_file
              (plain_fs [''l.txt'' \<mapsto> [97, 97, 97, 97, 97, 97, 97, 97, 97, 97, 97, 97, 97, 97, 97, 97, 97, 98],
               ''l.huff'' \<mapsto> [72, 85, 70, 70, 0, 0, 0, 5, 0, 1, 98, 1, 97, 6, 255, 255, 128]])
              ''l.huff'' ''out''
           = Inr (plain_fs [''l.txt'' \<mapsto> [97, 97, 97, 97, 97, 97, 97, 97, 97, 97, 97, 97, 97, 97, 97, 97, 97, 98],
                   ''l.huff'' \<mapsto> [72, 85, 70, 70, 0, 0, 0, 5, 0, 1, 98, 1, 97, 6, 255, 255, 128],
                   ''out'' \<mapsto> [97, 97, 97, 97, 97, 97, 97, 97, 97, 97, 97, 97, 97, 97, 97, 97, 97, 98]], st2))"
proof -
  let ?D = "[97, 97, 97, 97, 97, 97, 97, 97, 97, 97, 97, 97, 97, 97, 97, 97, 97, 98 :: byte]"
  have a: "read_file_bytes (plain_fs [''l.txt'' \<mapsto> ?D]) ''l.txt'' = Inr ?D"
    by (simp add: plain_read)
  have b: "2 \<le> card (set ?D)" by simp
  have c: "\<not> prefix MAGIC ?D" by (simp add: MAGIC_def)
  from compress_decompress_roundtrip[where files="plain_fs [''l.txt'' \<mapsto> ?D]" and src="''l.txt''"
      and dst="''l.huff''" and out="''out''", OF a b c name_long]
  show ?thesis
    unfolding parts_long by (simp add: container_long plain_write)
qed

text \<open>
  C1 as stated fails for the two bytes \<open>ab\<close>: the 15-byte container would not shrink
  the input, so the destination is a verbatim copy, and decompressing it fails with the
  too-small error.
\<close>

theorem small_input_roundtrip_fails:
  "compress_file (plain_fs [''a.txt'' \<mapsto> [97, 98]]) ''a.txt'' ''a.huff''
     = Inr (plain_fs [''a.txt'' \<mapsto> [97, 98], ''a.huff'' \<mapsto> [97, 98]], None,
            \<lparr>c_input = ''a.txt'', c_output = ''a.huff'', original_bytes = 2,
             compressed_bytes = 2, unique_symbols = 2, pad_count = Some 6,
             compression_ratio = Some 1, space_saved_percent = Some 0,
             skipped = True, skip_note = Some CannotReduce\<rparr>)
   \<and> decompress_file (plain_fs [''a.txt'' \<mapsto> [97, 98], ''a.huff'' \<mapsto> [97, 98]])
       ''a.huff'' ''out''
       = Inl (ValueError TooSmall)"
proof -
  have a: "read_file_bytes (plain_fs [''a.txt'' \<mapsto> [97, 98]]) ''a.txt'' = Inr [97, 98]"
    by (simp add: plain_read)
  have c: "\<not> prefix MAGIC [97, 98]" by (simp add: MAGIC_def)
  from compress_file_normal_path[where files="plain_fs [''a.txt'' \<mapsto> [97, 98]]"
      and src="''a.txt''" and dst="''a.huff''", OF a c names(2) parts_ab container_ab]
  have "compress_file (plain_fs [''a.txt'' \<mapsto> [97, 98]]) ''a.txt'' ''a.huff''
     = Inr (plain_fs [''a.txt'' \<mapsto> [97, 98], ''a.huff'' \<mapsto> [97, 98]], None,
            \<lparr>c_input = ''a.txt'', c_output = ''a.huff'', original_bytes = 2,
             compressed_bytes = 2, unique_symbols = 2, pad_count = Some 6,
             compression_ratio = Some 1, space_saved_percent = Some 0,
             skipped = True, skip_note = Some CannotReduce\<rparr>)"
    by (simp add: plain_write plain_file_of)
  moreover have "decompress_file (plain_fs [''a.txt'' \<mapsto> [97, 98], ''a.huff'' \<mapsto> [97, 98]])
       ''a.huff'' ''out''
       = Inl (ValueError TooSmall)"
    by (simp add: decompress_file_def plain_read parse_container_cases)
  ultimately show ?thesis by (rule conjI)
qed

lemma freq_single:
  "foldl count_elem [(b, k)] (replicate m b) = [(b, k + int m)]"
  by (induction m arbitrary: k) (simp_all add: count_elem_def)

lemma build_freq_map_single: "n \<ge> 1 \<Longrightarrow> build_freq_map (replicate n b) = [(b, int n)]"
proof -
  assume "n \<ge> 1"
  then obtain m where n: "n = Suc m" by (cases n) auto
  show ?thesis
    using freq_single[of b 1 m] by (simp add: n build_freq_map_def count_elem_def)
qed

lemma not_magic_replicate: "\<not> prefix MAGIC (replicate n b)"
proof
  assume "prefix MAGIC (replicate n b)"
  then obtain zs where "replicate n b = 72 # 85 # 70 # 70 # zs"
    by (auto simp: prefix_def MAGIC_def)
  then have "set (72 # 85 # 70 # 70 # zs) \<subseteq> {b}"
    using set_replicate_conv_if[of n b] by (metis empty_subsetI subset_refl)
  then have "b = 72" "b = 85" by auto
  then show False by simp
qed

lemma ser_dfs_missing_right:
  assumes "2 \<le> d"
  shows "ser_dfs d (Some (Node None f (Some (Node (Some s) g None None)) None)) out
           = Inl AttributeError"
proof -
  from assms obtain d' where "d = Suc (Suc d')"
    by (metis Suc_le_D numeral_2_eq_2 Suc_le_mono)
  then show ?thesis by simp
qed

text \<open>
  C2. For \<open>n \<ge> 1\<close> repetitions of one byte, \<open>build_tree\<close> wraps the lone leaf under a
  parent whose right child is \<open>None\<close> and \<open>make_codes\<close> gives the byte the code \<open>0\<close>,
  as the claim says. But \<open>serialize\<close> reads \<open>node.sym\<close> of the missing right child:
  \<open>compress_file\<close> raises \<open>AttributeError\<close>, writes nothing, and there is no output to
  round-trip.
\<close>

theorem single_symbol_compress_fails:
  assumes "read_file_bytes files src = Inr (replicate n b)" and "1 \<le> n"
    and "\<not> name_skipped src"
  shows "build_tree (heap_from_freq (build_freq_map (replicate n b)))
           = Inr (Some (Node None (int n) (Some (Node (Some b) (int n) None None)) None))
       \<and> make_codes (Some (Node None (int n) (Some (Node (Some b) (int n) None None)) None))
           = [b \<mapsto> ''0'']
       \<and> compress_file files src dst = Inl AttributeError"
proof -
  let ?t = "Node None (int n) (Some (Node (Some b) (int n) None None)) None"
  note fm = build_freq_map_single[OF assms(2), of b]
  have bt: "build_tree (heap_from_freq (build_freq_map (replicate n b))) = Inr (Some ?t)"
    using build_tree_spec[of "[(b, int n)]"] by (simp add: fm)
  have mc: "make_codes (Some ?t) = [b \<mapsto> ''0'']"
    by (simp add: make_codes_def)
  have en: "encode_bytes (replicate n b) [b \<mapsto> ''0'']
              = Inr (concat (map (\<lambda>x. the ([b \<mapsto> ''0''] x)) (replicate n b)))"
    by (rule encode_bytes_concat) simp
  define bitstr where "bitstr = concat (map (\<lambda>x. the ([b \<mapsto> ''0''] x)) (replicate n b))"
  have bits: "is_bits bitstr" by (auto simp: bitstr_def is_bits_def)
  obtain padded extra where pad: "pad_bits bitstr = (padded, extra)"
    by (cases "pad_bits bitstr")
  note pp = pad_bits_props[OF bits pad]
  from bits_to_bytes_roundtrip[OF pp(1,2)] obtain payload where
    payload: "bits_to_bytes padded = Inr payload" by blast
  have "2 \<le> call_depth" by (simp add: call_depth_def recursion_limit_def)
  then have ser: "serialize call_depth (Some ?t) = Inl AttributeError"
    by (simp add: serialize_def ser_dfs_missing_right)
  have hp: "huffman_parts (replicate n b) = Inl AttributeError"
    by (simp add: huffman_parts_def Let_def bt mc en[folded bitstr_def] pad payload ser)
  from compress_file_parts_error[where files=files and src=src and dst=dst,
         OF assms(1) not_magic_replicate assms(3) hp] bt mc
  show ?thesis by simp
qed

theorem single_symbol_compress_fails_witness:
  "build_tree (heap_from_freq (build_freq_map [97]))
     = Inr (Some (Node None 1 (Some (Node (Some 97) 1 None None)) None))
   \<and> make_codes (Some (Node None 1 (Some (Node (Some 97) 1 None None)) None)) = [97 \<mapsto> ''0'']
   \<and> compress_file (plain_fs [''s.txt'' \<mapsto> [97]]) ''s.txt'' ''s.huff'' = Inl AttributeError"
proof -
  have a: "read_file_bytes (plain_fs [''s.txt'' \<mapsto> [97]]) ''s.txt'' = Inr (replicate 1 97)"
    by (simp add: plain_read)
  have b: "(1 :: nat) \<le> 1" by simp
  from single_symbol_compress_fails[where files="plain_fs [''s.txt'' \<mapsto> [97]]" and src="''s.txt''"
      and dst="''s.huff''", OF a b names(3)]
  show ?thesis by simp
qed

end
